theory Spec2Isabelle
  imports Complex_Main "HOL-Library.Sublist" "HOL-Library.Log_Nat" "HOL-Library.Product_Lexorder"
begin

section \<open>Python strings\<close>

text \<open>
  A Python \<open>str\<close> is a sequence of code points. The model uses \<open>string\<close>, whose
  characters are the code points 0 to 255 (the ASCII and Latin-1 blocks); on this range
  \<open>str.isspace\<close>, the regular-expression class \<open>\s\<close> and \<open>str.lower\<close> are
  the functions below.
\<close>

definition isspace :: "char \<Rightarrow> bool" where
  "isspace c =
     (let n = (of_char c :: nat)
      in (9 \<le> n \<and> n \<le> 13) \<or> (28 \<le> n \<and> n \<le> 32) \<or> n = 133 \<or> n = 160)"

text \<open>
  \<open>str.split()\<close> without a separator: runs of whitespace separate the words, and
  no empty word is produced. The accumulator \<open>cur\<close> is the word being read.
\<close>

fun split_aux :: "string \<Rightarrow> string \<Rightarrow> string list" where
  "split_aux [] cur = (if cur = [] then [] else [cur])"
| "split_aux (c # cs) cur =
     (if isspace c
      then (if cur = [] then split_aux cs [] else cur # split_aux cs [])
      else split_aux cs (cur @ [c]))"

definition split :: "string \<Rightarrow> string list" where
  "split s = split_aux s []"

text \<open>\<open>sep.join(words)\<close>.\<close>

fun join :: "string \<Rightarrow> string list \<Rightarrow> string" where
  "join sep [] = []"
| "join sep [w] = w"
| "join sep (w # v # ws) = w @ sep @ join sep (v # ws)"

text \<open>A word, as \<open>str.split()\<close> produces it: not empty, and free of whitespace.\<close>

definition is_word :: "string \<Rightarrow> bool" where
  "is_word w = (w \<noteq> [] \<and> list_all (\<lambda>c. \<not> isspace c) w)"

section \<open>Conversation history (ai_app.py)\<close>

text \<open>
  A conversation turn is a dictionary with the keys \<open>author\<close> and \<open>text\<close>; the code
  reads both with \<open>dict.get\<close>, so either may be missing or \<open>None\<close>
  (the field names carry the prefix \<open>turn_\<close>).
\<close>

record turn =
  turn_author :: "string option"
  turn_text :: "string option"

definition turn_words :: "turn \<Rightarrow> nat" where
  "turn_words entry = length (split (case turn_text entry of None \<Rightarrow> [] | Some t \<Rightarrow> t))"

text \<open>
  The loop of \<open>_truncate_history\<close> over \<open>reversed(messages)\<close>; \<open>break\<close> returns the
  turns collected so far.
\<close>

fun truncate_loop :: "turn list \<Rightarrow> nat \<Rightarrow> turn list \<Rightarrow> turn list" where
  "truncate_loop [] total_words trimmed = trimmed"
| "truncate_loop (entry # rest) total_words trimmed =
     (if total_words + turn_words entry > 3000 \<and> trimmed \<noteq> []
      then trimmed
      else truncate_loop rest (total_words + turn_words entry) (trimmed @ [entry]))"

definition truncate_history :: "turn list \<Rightarrow> turn list" where
  "truncate_history messages = rev (truncate_loop (rev messages) 0 [])"

definition total_words :: "turn list \<Rightarrow> nat" where
  "total_words ms = sum_list (map turn_words ms)"

section \<open>Speech synthesis (ai_app.py)\<close>

text \<open>
  \<open>synthesize_conversational\<close>, up to its call of the text-to-speech engine: the value
  is the text handed to \<open>gTTS\<close>.
\<close>

definition synthesize_conversational :: "string \<Rightarrow> string" where
  "synthesize_conversational t =
     (let words = split t
      in if length words > 150 then join '' '' (take 150 words) @ ''...'' else t)"

section \<open>JSON values\<close>

text \<open>
  The values that \<open>json\<close> decoding produces: \<open>None\<close>, booleans, numbers, strings,
  lists and dictionaries (as association lists, a later binding of a key overriding an
  earlier one).
\<close>

datatype json = JNull | JBool bool | JNum rat | JStr string | JArr "json list"
  | JObj "(string \<times> json) list"

text \<open>Python truthiness, as \<open>or\<close> and \<open>not\<close> test it.\<close>

fun truthy :: "json \<Rightarrow> bool" where
  "truthy JNull = False"
| "truthy (JBool b) = b"
| "truthy (JNum n) = (n \<noteq> 0)"
| "truthy (JStr s) = (s \<noteq> [])"
| "truthy (JArr xs) = (xs \<noteq> [])"
| "truthy (JObj kvs) = (kvs \<noteq> [])"

text \<open>\<open>d.get(key)\<close> on a dictionary.\<close>

definition dict_get :: "(string \<times> json) list \<Rightarrow> string \<Rightarrow> json option" where
  "dict_get kvs key = map_of (rev kvs) key"

section \<open>Removing a reply audio file (ai_app.py)\<close>

text \<open>\<open>str.strip()\<close>, \<open>os.path.basename\<close> (POSIX) and \<open>str.endswith\<close>.\<close>

definition strip :: "string \<Rightarrow> string" where
  "strip s = rev (dropWhile isspace (rev (dropWhile isspace s)))"

definition basename :: "string \<Rightarrow> string" where
  "basename p = rev (takeWhile (\<lambda>c. c \<noteq> CHR ''/'') (rev p))"

definition endswith :: "string \<Rightarrow> string \<Rightarrow> bool" where
  "endswith s sfx = (length sfx \<le> length s \<and> drop (length s - length sfx) s = sfx)"

text \<open>
  The body of \<open>cleanup_audio\<close>, which runs for a logged-in user, on the decoded
  request body (\<open>None\<close> when the body is not JSON) and the set of files in the audio
  folder; it returns the HTTP status with the JSON reply, and the files left. An \<open>AttributeError\<close> (the body is not a dictionary, or
  the file name is not a string) reaches the handler's \<open>except\<close> clause, which
  answers 500.
\<close>

definition cleanup_audio ::
  "json option \<Rightarrow> string set \<Rightarrow> (nat \<times> string \<times> string) \<times> string set" where
  "cleanup_audio body files =
     (case (case body of None \<Rightarrow> JObj [] | Some p \<Rightarrow> if truthy p then p else JObj []) of
        JObj payload \<Rightarrow>
          (case (case dict_get payload ''filename'' of
                   None \<Rightarrow> JStr []
                 | Some v \<Rightarrow> if truthy v then v else JStr []) of
             JStr raw \<Rightarrow>
               (let original = strip raw
                in if original = [] then ((400, ''error'', ''Filename required''), files)
                   else let filename = basename original
                        in if filename \<noteq> original \<or> \<not> endswith filename ''.mp3''
                           then ((400, ''error'', ''Invalid filename''), files)
                           else ((200, ''status'', ''ok''), files - {filename}))
           | _ \<Rightarrow> ((500, ''error'', ''AttributeError''), files))
      | _ \<Rightarrow> ((500, ''error'', ''AttributeError''), files))"

section \<open>Progress entries (app.py)\<close>

record content_item =
  item_id :: int
  item_text :: string

record progress_entry =
  entry_id :: string
  sentence_id :: int
  content_type :: string
  target :: string
  transcript :: string
  score :: rat
  created_at :: int

text \<open>
  What the write to the document store does: there is no client, the write succeeds, or
  it raises and the exception is logged and dropped.
\<close>

datatype firestore_write = NoClient | WriteOk | WriteFails

record progress_state =
  PROGRESS_CACHE :: "string \<rightharpoonup> progress_entry list"
  firestore_sessions :: "(string \<times> progress_entry) list"

text \<open>
  One call of \<open>save_progress_entry\<close> with what it reads from its environment: the
  outcome of the remote write, the fresh identifier and the clock.
\<close>

record save_call =
  call_write :: firestore_write
  call_uuid :: string
  call_now :: int
  call_user_id :: string
  call_content :: content_item
  call_transcript :: string
  call_score :: rat
  call_content_type :: string

definition new_entry :: "save_call \<Rightarrow> progress_entry" where
  "new_entry c =
     \<lparr>entry_id = call_uuid c, sentence_id = item_id (call_content c),
      content_type = call_content_type c, target = item_text (call_content c),
      transcript = call_transcript c, score = call_score c, created_at = call_now c\<rparr>"

definition cached :: "progress_state \<Rightarrow> string \<Rightarrow> progress_entry list" where
  "cached st user_id = (case PROGRESS_CACHE st user_id of None \<Rightarrow> [] | Some h \<Rightarrow> h)"

definition save_progress_entry :: "save_call \<Rightarrow> progress_state \<Rightarrow> progress_state" where
  "save_progress_entry c st =
     (if call_user_id c = [] then st
      else
        let entry = new_entry c;
            st1 = (case call_write c of
                     WriteOk \<Rightarrow>
                       st\<lparr>firestore_sessions := firestore_sessions st @ [(call_user_id c, entry)]\<rparr>
                   | _ \<Rightarrow> st);
            history = cached st1 (call_user_id c) @ [entry];
            history = (if length history > 100
                       then drop (length history - 100) history else history)
        in st1\<lparr>PROGRESS_CACHE := (PROGRESS_CACHE st1)(call_user_id c \<mapsto> history)\<rparr>)"

fun save_all :: "save_call list \<Rightarrow> progress_state \<Rightarrow> progress_state" where
  "save_all [] st = st"
| "save_all (c # cs) st = save_all cs (save_progress_entry c st)"

definition entries_for :: "string \<Rightarrow> save_call list \<Rightarrow> progress_entry list" where
  "entries_for user_id cs = map new_entry (filter (\<lambda>c. call_user_id c = user_id) cs)"

definition last_100 :: "'a list \<Rightarrow> 'a list" where
  "last_100 xs = drop (length xs - 100) xs"

section \<open>The remote dialogue client (ai_app.py)\<close>

text \<open>
  The exceptions the code can meet. \<open>HTTPError\<close> carries the status code of its
  response, read with \<open>getattr(exc.response, "status_code", None)\<close>; \<open>RequestFailed\<close>
  stands for the other exceptions of the HTTP library (connection errors, timeouts, a
  body that is not JSON).
\<close>

datatype exn = HTTPError "int option" | RuntimeError string | AttributeError | TypeError
  | KeyError | ValueError | RequestFailed string

text \<open>
  What one attempt observes up to \<open>data = response.json()\<close>: an exception raised by
  \<open>requests.post\<close>, \<open>raise_for_status\<close> or \<open>json\<close>, or the decoded body.
\<close>

datatype attempt = Raised exn | Parsed json

text \<open>
  \<open>"".join(part.get("text", "") for part in parts)\<close>: \<open>join\<close> first collects the
  generator, where a part that is not a dictionary raises \<open>AttributeError\<close>, and then
  concatenates, where a text that is not a string raises \<open>TypeError\<close>.
\<close>

fun part_texts :: "json list \<Rightarrow> json list option" where
  "part_texts [] = Some []"
| "part_texts (JObj part # rest) =
     map_option (Cons (case dict_get part ''text'' of None \<Rightarrow> JStr [] | Some v \<Rightarrow> v))
       (part_texts rest)"
| "part_texts (_ # rest) = None"

fun join_empty :: "json list \<Rightarrow> string option" where
  "join_empty [] = Some []"
| "join_empty (JStr s # rest) = map_option (append s) (join_empty rest)"
| "join_empty (_ # rest) = None"

definition parts_text :: "json list \<Rightarrow> exn + string" where
  "parts_text parts =
     (case part_texts parts of
        None \<Rightarrow> Inl AttributeError
      | Some texts \<Rightarrow> (case join_empty texts of None \<Rightarrow> Inl TypeError | Some t \<Rightarrow> Inr t))"

text \<open>
  What the function returns: a value taken from the response or built from it
  (\<open>Value\<close>), or the builtin \<open>str\<close> applied to a content that is not a dictionary
  (\<open>Str_of\<close>; the content is \<open>None\<close>, here \<open>JNull\<close>, when the candidate has none).
\<close>

datatype reply = Value json | Str_of json

text \<open>The lines of the \<open>try\<close> block after \<open>data = response.json()\<close>.\<close>

definition extract_reply :: "json \<Rightarrow> exn + reply" where
  "extract_reply data =
     (case data of
        JObj d \<Rightarrow>
          (let candidates = (case dict_get d ''candidates'' of
                               None \<Rightarrow> JArr []
                             | Some v \<Rightarrow> if truthy v then v else JArr [])
           in if \<not> truthy candidates then Inl (RuntimeError ''No response from Gemini API'')
              else case candidates of
                JArr (JObj c # _) \<Rightarrow>
                  (case dict_get c ''content'' of
                     Some (JObj content) \<Rightarrow>
                       (case dict_get content ''text'' of
                          Some t \<Rightarrow> Inr (Value t)
                        | None \<Rightarrow>
                            (case dict_get content ''parts'' of
                               None \<Rightarrow> Inr (Value (JStr []))
                             | Some (JArr parts) \<Rightarrow>
                                 (case parts_text parts of
                                    Inl e \<Rightarrow> Inl e | Inr t \<Rightarrow> Inr (Value (JStr t)))
                             | Some (JStr s) \<Rightarrow>
                                 if s = [] then Inr (Value (JStr [])) else Inl AttributeError
                             | Some (JObj kvs) \<Rightarrow>
                                 if kvs = [] then Inr (Value (JStr [])) else Inl AttributeError
                             | Some _ \<Rightarrow> Inl TypeError))
                   | Some other \<Rightarrow> Inr (Str_of other)
                   | None \<Rightarrow> Inr (Str_of JNull))
              | JArr _ \<Rightarrow> Inl AttributeError
              | JStr _ \<Rightarrow> Inl AttributeError
              | JObj _ \<Rightarrow> Inl KeyError
              | _ \<Rightarrow> Inl TypeError)
      | _ \<Rightarrow> Inl AttributeError)"

definition try_body :: "attempt \<Rightarrow> exn + reply" where
  "try_body a = (case a of Raised e \<Rightarrow> Inl e | Parsed data \<Rightarrow> extract_reply data)"

text \<open>
  The result of a call: what is returned or raised, the backoff sleeps in the order they
  were made, and the number of the last attempt made (0 when none was).
\<close>

record call_result =
  outcome :: "exn + reply"
  sleeps :: "rat list"
  attempts :: int

text \<open>
  \<open>time.sleep(backoff * (2 ** (attempt - 1)))\<close> inside an \<open>except\<close> clause: a
  negative length makes \<open>time.sleep\<close> raise \<open>ValueError\<close>, which leaves the function.
\<close>

definition sleep_length :: "rat \<Rightarrow> int \<Rightarrow> rat" where
  "sleep_length backoff attempt = backoff * 2 ^ nat (attempt - 1)"

text \<open>
  The loop \<open>for attempt in range(1, retries + 1)\<close>, from attempt \<open>attempt\<close> on;
  \<open>env k\<close> is what attempt \<open>k\<close> observes. After the loop the code raises
  \<open>last_exc\<close> if there is one, else a \<open>RuntimeError\<close>. The request sent is the
  same on every attempt: the lines before the loop, which build it from the messages, are
  left out.
\<close>

function retry_loop ::
  "(int \<Rightarrow> attempt) \<Rightarrow> int \<Rightarrow> rat \<Rightarrow> int \<Rightarrow> exn option \<Rightarrow> rat list \<Rightarrow> call_result" where
  "retry_loop env retries backoff attempt last_exc slept =
     (if retries < attempt
      then \<lparr>outcome = Inl (case last_exc of Some e \<Rightarrow> e
                              | None \<Rightarrow> RuntimeError ''Gemini API call failed''),
            sleeps = slept, attempts = attempt - 1\<rparr>
      else case try_body (env attempt) of
        Inr reply \<Rightarrow> \<lparr>outcome = Inr reply, sleeps = slept, attempts = attempt\<rparr>
      | Inl (HTTPError status) \<Rightarrow>
          if status = Some 503 \<and> attempt < retries
          then if sleep_length backoff attempt < 0
               then \<lparr>outcome = Inl ValueError, sleeps = slept, attempts = attempt\<rparr>
               else retry_loop env retries backoff (attempt + 1)
                      (Some (HTTPError status)) (slept @ [sleep_length backoff attempt])
          else \<lparr>outcome = Inl (HTTPError status), sleeps = slept, attempts = attempt\<rparr>
      | Inl exc \<Rightarrow>
          if attempt < retries
          then if sleep_length backoff attempt < 0
               then \<lparr>outcome = Inl ValueError, sleeps = slept, attempts = attempt\<rparr>
               else retry_loop env retries backoff (attempt + 1) (Some exc)
                      (slept @ [sleep_length backoff attempt])
          else \<lparr>outcome = Inl exc, sleeps = slept, attempts = attempt\<rparr>)"
  by pat_completeness auto
termination
  by (relation "measure (\<lambda>(env, retries, backoff, attempt, last_exc, slept).
        nat (retries - attempt))") auto

declare retry_loop.simps [simp del]

definition call_gemini_api ::
  "(int \<Rightarrow> attempt) \<Rightarrow> int \<Rightarrow> rat \<Rightarrow> call_result" where
  "call_gemini_api env retries backoff = retry_loop env retries backoff 1 None []"

text \<open>
  An attempt fails in a way the loop retries: an \<open>HTTPError\<close> with status 503, or any
  exception that is not an \<open>HTTPError\<close>.
\<close>

definition retryable :: "exn + reply \<Rightarrow> bool" where
  "retryable r =
     (case r of Inr _ \<Rightarrow> False | Inl (HTTPError status) \<Rightarrow> status = Some 503 | Inl _ \<Rightarrow> True)"

definition no_candidates :: "(string \<times> json) list \<Rightarrow> bool" where
  "no_candidates d = (case dict_get d ''candidates'' of None \<Rightarrow> True | Some v \<Rightarrow> \<not> truthy v)"

definition text_of_part :: "json \<Rightarrow> string" where
  "text_of_part p =
     (case p of
        JObj part \<Rightarrow> (case dict_get part ''text'' of Some (JStr t) \<Rightarrow> t | _ \<Rightarrow> [])
      | _ \<Rightarrow> [])"

definition text_part :: "json \<Rightarrow> bool" where
  "text_part p =
     (case p of
        JObj part \<Rightarrow>
          (case dict_get part ''text'' of None \<Rightarrow> True | Some (JStr t) \<Rightarrow> True | _ \<Rightarrow> False)
      | _ \<Rightarrow> False)"

definition is_dict :: "json \<Rightarrow> bool" where
  "is_dict v = (case v of JObj kvs \<Rightarrow> True | _ \<Rightarrow> False)"

section \<open>Text normalisation (app.py)\<close>

text \<open>
  \<open>str.lower\<close> on the code points 0 to 255: the letters A to Z, and the Latin-1 capitals
  192 to 222 except the multiplication sign 215, move up by 32.
\<close>

definition lower_char :: "char \<Rightarrow> char" where
  "lower_char c =
     (let n = (of_char c :: nat)
      in if (65 \<le> n \<and> n \<le> 90) \<or> (192 \<le> n \<and> n \<le> 222 \<and> n \<noteq> 215)
         then char_of (n + 32) else c)"

definition lower :: "string \<Rightarrow> string" where
  "lower s = map lower_char s"

text \<open>The characters \<open>a-z0-9\<close>, and the class \<open>[a-z0-9\s]\<close> of the pattern.\<close>

definition alnum :: "char \<Rightarrow> bool" where
  "alnum c =
     (let n = (of_char c :: nat) in (97 \<le> n \<and> n \<le> 122) \<or> (48 \<le> n \<and> n \<le> 57))"

definition in_class :: "char \<Rightarrow> bool" where
  "in_class c = (alnum c \<or> isspace c)"

text \<open>\<open>re.sub(r"[^a-z0-9\s]", " ", s)\<close>: every character outside the class becomes a space.\<close>

definition re_sub :: "string \<Rightarrow> string" where
  "re_sub s = map (\<lambda>c. if in_class c then c else CHR '' '') s"

definition normalize_text :: "string \<Rightarrow> string" where
  "normalize_text v = (let cleaned = re_sub (lower v) in join '' '' (split cleaned))"

text \<open>
  The normalisation as the specification words it: lowercase, strip (delete) every
  character outside the class, collapse whitespace.
\<close>

definition spec_normalize_stripping :: "string \<Rightarrow> string" where
  "spec_normalize_stripping v = join '' '' (split (filter in_class (lower v)))"

text \<open>
  The tokens of a string: its maximal runs of characters \<open>a-z0-9\<close>, every other
  character separating two tokens. The accumulator is the token being read.
\<close>

fun tokens_aux :: "string \<Rightarrow> string \<Rightarrow> string list" where
  "tokens_aux [] cur = (if cur = [] then [] else [cur])"
| "tokens_aux (c # cs) cur =
     (if alnum c then tokens_aux cs (cur @ [c])
      else if cur = [] then tokens_aux cs [] else cur # tokens_aux cs [])"

definition tokens :: "string \<Rightarrow> string list" where
  "tokens s = tokens_aux s []"

definition is_token :: "string \<Rightarrow> bool" where
  "is_token w = (w \<noteq> [] \<and> list_all alnum w)"

section \<open>Python floats\<close>

text \<open>
  A Python \<open>float\<close> is an IEEE 754 binary64 number; the finite ones are rationals, and
  every operation returns the double nearest to the exact result, a tie going to the even
  significand. The model rounds to 53 significant bits with an unbounded exponent, so it
  leaves out overflow and subnormal numbers.
\<close>

text \<open>Rounding to the nearest integer, a tie going to the even one.\<close>

definition round_half_even :: "rat \<Rightarrow> int" where
  "round_half_even x =
     (let f = \<lfloor>x\<rfloor>; d = x - of_int f
      in if d < 1 / 2 then f else if 1 / 2 < d then f + 1 else if even f then f else f + 1)"

text \<open>The exponent \<open>e\<close> with \<open>2 ^ e \<le> x < 2 ^ (e + 1)\<close>, for a positive \<open>x\<close>.\<close>

definition binade :: "rat \<Rightarrow> int" where
  "binade x =
     (let (p, q) = quotient_of x; e = bitlen p - bitlen q
      in if 2 powi e \<le> x then e else e - 1)"

definition binary64 :: "rat \<Rightarrow> rat" where
  "binary64 x =
     (if x = 0 then 0
      else let ulp = 2 powi (binade \<bar>x\<bar> - 52)
           in sgn x * of_int (round_half_even (\<bar>x\<bar> / ulp)) * ulp)"

section \<open>difflib.SequenceMatcher\<close>

text \<open>
  \<open>calculate_similarity\<close> calls \<open>difflib.SequenceMatcher(None, a, b).ratio()\<close> of the
  Python standard library; the functions below follow \<open>difflib.py\<close>, with \<open>isjunk\<close>
  fixed to \<open>None\<close> and \<open>autojunk\<close> to \<open>True\<close> as this call has them. Indices are natural
  numbers; \<open>i + 1 - k\<close> stands for Python's \<open>i-k+1\<close>, where \<open>k \<le> i + 1\<close> always.
\<close>

type_synonym block = "nat \<times> nat \<times> nat"

text \<open>
  \<open>__chain_b\<close>: \<open>b2j\<close> maps each element of \<open>b\<close> to the increasing list of its
  indices; no element is junk; when \<open>b\<close> has 200 elements or more, those occurring more
  than \<open>len(b) // 100 + 1\<close> times are popular and lose their entry.
\<close>

definition indices :: "string \<Rightarrow> char \<Rightarrow> nat list" where
  "indices b elt = filter (\<lambda>j. b ! j = elt) [0..<length b]"

definition isbjunk :: "char \<Rightarrow> bool" where
  "isbjunk elt = False"

definition bpopular :: "string \<Rightarrow> char \<Rightarrow> bool" where
  "bpopular b elt = (200 \<le> length b \<and> length b div 100 + 1 < length (indices b elt))"

text \<open>\<open>b2j.get(elt, nothing)\<close>.\<close>

definition b2j_get :: "string \<Rightarrow> char \<Rightarrow> nat list" where
  "b2j_get b elt = (if bpopular b elt then [] else indices b elt)"

text \<open>\<open>j2len.get(j-1, 0)\<close>: the key \<open>-1\<close> is never present.\<close>

definition j2lenget :: "(nat \<rightharpoonup> nat) \<Rightarrow> nat \<Rightarrow> nat" where
  "j2lenget j2len j =
     (if j = 0 then 0 else case j2len (j - 1) of None \<Rightarrow> 0 | Some k \<Rightarrow> k)"

text \<open>
  The inner loop of \<open>find_longest_match\<close> over the indices \<open>j\<close> with \<open>b[j] = a[i]\<close>:
  \<open>continue\<close> below \<open>blo\<close>, \<open>break\<close> from \<open>bhi\<close> on. The state is \<open>newj2len\<close> and
  the best match \<open>(besti, bestj, bestsize)\<close>.
\<close>

fun inner_loop ::
  "(nat \<rightharpoonup> nat) \<Rightarrow> nat \<Rightarrow> nat \<Rightarrow> nat \<Rightarrow> nat list \<Rightarrow> (nat \<rightharpoonup> nat) \<times> block
     \<Rightarrow> (nat \<rightharpoonup> nat) \<times> block" where
  "inner_loop j2len i blo bhi [] st = st"
| "inner_loop j2len i blo bhi (j # js) (newj2len, besti, bestj, bestsize) =
     (if j < blo then inner_loop j2len i blo bhi js (newj2len, besti, bestj, bestsize)
      else if bhi \<le> j then (newj2len, besti, bestj, bestsize)
      else if bestsize < j2lenget j2len j + 1
      then inner_loop j2len i blo bhi js
             (newj2len(j \<mapsto> j2lenget j2len j + 1),
              i + 1 - (j2lenget j2len j + 1), j + 1 - (j2lenget j2len j + 1),
              j2lenget j2len j + 1)
      else inner_loop j2len i blo bhi js
             (newj2len(j \<mapsto> j2lenget j2len j + 1), besti, bestj, bestsize))"

text \<open>The loop \<open>for i in range(alo, ahi)\<close>; the state is \<open>j2len\<close> and the best match.\<close>

fun outer_loop ::
  "string \<Rightarrow> string \<Rightarrow> nat \<Rightarrow> nat \<Rightarrow> nat list \<Rightarrow> (nat \<rightharpoonup> nat) \<times> block
     \<Rightarrow> (nat \<rightharpoonup> nat) \<times> block" where
  "outer_loop a b blo bhi [] st = st"
| "outer_loop a b blo bhi (i # rest) (j2len, best) =
     outer_loop a b blo bhi rest
       (inner_loop j2len i blo bhi (b2j_get b (a ! i)) (Map.empty, best))"

text \<open>
  The four \<open>while\<close> loops that extend the best match at both ends, first by elements
  that are not junk (\<open>junk = False\<close>), then by junk (\<open>junk = True\<close>).
\<close>

function extend_down :: "string \<Rightarrow> string \<Rightarrow> nat \<Rightarrow> nat \<Rightarrow> bool \<Rightarrow> block \<Rightarrow> block" where
  "extend_down a b alo blo junk (besti, bestj, bestsize) =
     (if alo < besti \<and> blo < bestj \<and> isbjunk (b ! (bestj - 1)) = junk
         \<and> a ! (besti - 1) = b ! (bestj - 1)
      then extend_down a b alo blo junk (besti - 1, bestj - 1, bestsize + 1)
      else (besti, bestj, bestsize))"
  by pat_completeness auto
termination
  by (relation "measure (\<lambda>(a, b, alo, blo, junk, besti, bestj, bestsize). besti)") auto

function extend_up :: "string \<Rightarrow> string \<Rightarrow> nat \<Rightarrow> nat \<Rightarrow> bool \<Rightarrow> block \<Rightarrow> block" where
  "extend_up a b ahi bhi junk (besti, bestj, bestsize) =
     (if besti + bestsize < ahi \<and> bestj + bestsize < bhi
         \<and> isbjunk (b ! (bestj + bestsize)) = junk
         \<and> a ! (besti + bestsize) = b ! (bestj + bestsize)
      then extend_up a b ahi bhi junk (besti, bestj, bestsize + 1)
      else (besti, bestj, bestsize))"
  by pat_completeness auto
termination
  by (relation "measure (\<lambda>(a, b, ahi, bhi, junk, besti, bestj, bestsize).
        ahi - (besti + bestsize))") auto

declare extend_down.simps [simp del] extend_up.simps [simp del]

definition find_longest_match :: "string \<Rightarrow> string \<Rightarrow> nat \<Rightarrow> nat \<Rightarrow> nat \<Rightarrow> nat \<Rightarrow> block" where
  "find_longest_match a b alo ahi blo bhi =
     extend_up a b ahi bhi True
       (extend_down a b alo blo True
         (extend_up a b ahi bhi False
           (extend_down a b alo blo False
             (snd (outer_loop a b blo bhi [alo..<ahi] (Map.empty, alo, blo, 0))))))"

text \<open>
  The best match lies in the window: this is what makes the loop of
  \<open>get_matching_blocks\<close> terminate.
\<close>

definition in_window :: "nat \<Rightarrow> nat \<Rightarrow> nat \<Rightarrow> nat \<Rightarrow> block \<Rightarrow> bool" where
  "in_window alo ahi blo bhi m =
     (case m of (i, j, k) \<Rightarrow>
        alo \<le> i \<and> blo \<le> j
        \<and> (i = alo \<and> j = blo \<and> k = 0 \<or> i + k \<le> ahi \<and> j + k \<le> bhi))"

definition row_bounded :: "nat \<Rightarrow> nat \<Rightarrow> nat \<Rightarrow> (nat \<rightharpoonup> nat) \<Rightarrow> bool" where
  "row_bounded alo blo i j2len =
     (\<forall>j k. j2len j = Some k \<longrightarrow> blo \<le> j \<and> k + alo \<le> i \<and> k + blo \<le> j + 1)"

lemma j2lenget_bounded:
  assumes "row_bounded alo blo i j2len" "alo \<le> i" "blo \<le> j"
  shows "j2lenget j2len j + alo \<le> i \<and> j2lenget j2len j + blo \<le> j"
proof (cases "j = 0")
  case True
  with assms show ?thesis by (simp add: j2lenget_def)
next
  case False
  show ?thesis
  proof (cases "j2len (j - 1)")
    case None
    with assms False show ?thesis by (simp add: j2lenget_def)
  next
    case (Some k)
    with assms(1) have "k + alo \<le> i \<and> k + blo \<le> j - 1 + 1"
      unfolding row_bounded_def by blast
    with Some False show ?thesis by (simp add: j2lenget_def)
  qed
qed

lemma inner_loop_window:
  assumes "row_bounded alo blo i j2len" "alo \<le> i" "i < ahi"
    and "row_bounded alo blo (i + 1) newj2len" "in_window alo ahi blo bhi best"
  shows "row_bounded alo blo (i + 1) (fst (inner_loop j2len i blo bhi js (newj2len, best)))
    \<and> in_window alo ahi blo bhi (snd (inner_loop j2len i blo bhi js (newj2len, best)))"
  using assms(4,5)
proof (induction js arbitrary: newj2len best)
  case Nil
  then show ?case by simp
next
  case (Cons j js)
  obtain besti bestj bestsize where best: "best = (besti, bestj, bestsize)"
    by (cases best) auto
  show ?case
  proof (cases "j < blo \<or> bhi \<le> j")
    case True
    then show ?thesis
      using Cons best by auto
  next
    case False
    then have j: "blo \<le> j" "j < bhi" by simp_all
    let ?k = "j2lenget j2len j + 1"
    from j2lenget_bounded [OF assms(1,2) j(1)]
    have k: "?k + alo \<le> i + 1" "?k + blo \<le> j + 1" by simp_all
    have row: "row_bounded alo blo (i + 1) (newj2len(j \<mapsto> ?k))"
      using Cons.prems(1) k j unfolding row_bounded_def by auto
    have win: "in_window alo ahi blo bhi (i + 1 - ?k, j + 1 - ?k, ?k)"
      using k j assms(3) unfolding in_window_def by simp linarith
    show ?thesis
    proof (cases "bestsize < ?k")
      case True
      then have step: "inner_loop j2len i blo bhi (j # js) (newj2len, best) =
          inner_loop j2len i blo bhi js (newj2len(j \<mapsto> ?k), i + 1 - ?k, j + 1 - ?k, ?k)"
        using j best by simp
      show ?thesis
        unfolding step by (rule Cons.IH [OF row win])
    next
      case False
      then have step: "inner_loop j2len i blo bhi (j # js) (newj2len, best) =
          inner_loop j2len i blo bhi js (newj2len(j \<mapsto> ?k), best)"
        using j best by simp
      show ?thesis
        unfolding step by (rule Cons.IH [OF row Cons.prems(2)])
    qed
  qed
qed

lemma row_bounded_empty: "row_bounded alo blo i Map.empty"
  by (simp add: row_bounded_def)

lemma outer_loop_window:
  assumes "row_bounded alo blo i j2len" "alo \<le> i" "in_window alo ahi blo bhi best"
  shows "in_window alo ahi blo bhi (snd (outer_loop a b blo bhi [i..<ahi] (j2len, best)))"
  using assms
proof (induction "ahi - i" arbitrary: i j2len best)
  case 0
  then show ?case by simp
next
  case (Suc n)
  then have lt: "i < ahi" by simp
  let ?st = "inner_loop j2len i blo bhi (b2j_get b (a ! i)) (Map.empty, best)"
  from inner_loop_window [OF Suc.prems(1,2) lt row_bounded_empty Suc.prems(3)]
  have row: "row_bounded alo blo (i + 1) (fst ?st)" and win: "in_window alo ahi blo bhi (snd ?st)"
    by simp_all
  have n: "n = ahi - (i + 1)" using Suc.hyps(2) by simp
  have le: "alo \<le> i + 1" using Suc.prems(2) by simp
  from Suc.hyps(1) [OF n row le win]
  have "in_window alo ahi blo bhi (snd (outer_loop a b blo bhi [i + 1..<ahi] (fst ?st, snd ?st)))" .
  then show ?case
    using lt by (simp add: upt_conv_Cons)
qed

lemma extend_down_window:
  "in_window alo ahi blo bhi m \<Longrightarrow> in_window alo ahi blo bhi (extend_down a b alo blo junk m)"
proof (induction a b alo blo junk m rule: extend_down.induct)
  case (1 a b alo blo junk besti bestj bestsize)
  show ?case
  proof (cases "alo < besti \<and> blo < bestj \<and> isbjunk (b ! (bestj - 1)) = junk
         \<and> a ! (besti - 1) = b ! (bestj - 1)")
    case True
    have "in_window alo ahi blo bhi (besti - 1, bestj - 1, bestsize + 1)"
      using "1.prems" True by (auto simp: in_window_def)
    with "1.IH" True show ?thesis
      by (subst extend_down.simps) simp
  next
    case False
    with "1.prems" show ?thesis
      by (subst extend_down.simps) auto
  qed
qed

lemma extend_up_window:
  "in_window alo ahi blo bhi m \<Longrightarrow> in_window alo ahi blo bhi (extend_up a b ahi bhi junk m)"
proof (induction a b ahi bhi junk m rule: extend_up.induct)
  case (1 a b ahi bhi junk besti bestj bestsize)
  show ?case
  proof (cases "besti + bestsize < ahi \<and> bestj + bestsize < bhi
         \<and> isbjunk (b ! (bestj + bestsize)) = junk
         \<and> a ! (besti + bestsize) = b ! (bestj + bestsize)")
    case True
    have "in_window alo ahi blo bhi (besti, bestj, bestsize + 1)"
      using "1.prems" True by (auto simp: in_window_def)
    with "1.IH" True show ?thesis
      by (subst extend_up.simps) simp
  next
    case False
    with "1.prems" show ?thesis
      by (subst extend_up.simps) auto
  qed
qed

lemma find_longest_match_window:
  "in_window alo ahi blo bhi (find_longest_match a b alo ahi blo bhi)"
proof -
  have "in_window alo ahi blo bhi (alo, blo, 0)"
    by (simp add: in_window_def)
  from outer_loop_window [OF row_bounded_empty le_refl this]
  show ?thesis
    unfolding find_longest_match_def
    by (intro extend_up_window extend_down_window)
qed

text \<open>
  \<open>get_matching_blocks\<close>. The queue is a stack of windows \<open>(alo, ahi, blo, bhi)\<close>
  with its top at the head of the list: the window to the right of a match is pushed
  last and popped first.
\<close>

type_synonym window = "nat \<times> nat \<times> nat \<times> nat"

definition find_in :: "string \<Rightarrow> string \<Rightarrow> window \<Rightarrow> block" where
  "find_in a b w = (case w of (alo, ahi, blo, bhi) \<Rightarrow> find_longest_match a b alo ahi blo bhi)"

definition push_windows :: "block \<Rightarrow> window \<Rightarrow> window list \<Rightarrow> window list" where
  "push_windows x w queue =
     (case x of (i, j, k) \<Rightarrow> case w of (alo, ahi, blo, bhi) \<Rightarrow>
        (if i + k < ahi \<and> j + k < bhi then [(i + k, ahi, j + k, bhi)] else [])
        @ (if alo < i \<and> blo < j then [(alo, i, blo, j)] else []) @ queue)"

definition window_size :: "window \<Rightarrow> nat" where
  "window_size w = (case w of (alo, ahi, blo, bhi) \<Rightarrow> 2 * (ahi - alo) + 1)"

lemma push_windows_smaller:
  assumes "snd (snd (find_in a b w)) \<noteq> 0"
  shows "sum_list (map window_size (push_windows (find_in a b w) w queue))
    < sum_list (map window_size (w # queue))"
proof -
  obtain alo ahi blo bhi where w: "w = (alo, ahi, blo, bhi)"
    by (cases w) auto
  obtain i j k where x: "find_longest_match a b alo ahi blo bhi = (i, j, k)"
    by (cases "find_longest_match a b alo ahi blo bhi") auto
  from assms have k: "k \<noteq> 0" by (simp add: find_in_def w x)
  from find_longest_match_window [of alo ahi blo bhi a b] k
  have "alo \<le> i" "i + k \<le> ahi"
    by (simp_all add: in_window_def x)
  with k show ?thesis
    by (auto simp: push_windows_def window_size_def find_in_def w x)
qed

function blocks_loop :: "string \<Rightarrow> string \<Rightarrow> window list \<Rightarrow> block list \<Rightarrow> block list" where
  "blocks_loop a b [] matching_blocks = matching_blocks"
| "blocks_loop a b (w # queue) matching_blocks =
     (if snd (snd (find_in a b w)) \<noteq> 0
      then blocks_loop a b (push_windows (find_in a b w) w queue)
             (matching_blocks @ [find_in a b w])
      else blocks_loop a b queue matching_blocks)"
  by pat_completeness auto
termination
proof (relation "measure (\<lambda>(a, b, queue, matching_blocks). sum_list (map window_size queue))")
  show "wf (measure (\<lambda>(a, b, queue, matching_blocks). sum_list (map window_size queue)))"
    by simp
next
  fix a b w queue and matching_blocks :: "block list"
  assume "snd (snd (find_in a b w)) \<noteq> 0"
  then show "((a, b, push_windows (find_in a b w) w queue, matching_blocks @ [find_in a b w]),
      (a, b, w # queue, matching_blocks))
    \<in> measure (\<lambda>(a, b, queue, matching_blocks). sum_list (map window_size queue))"
    using push_windows_smaller [of a b w queue] by simp
next
  fix a b w queue and matching_blocks :: "block list"
  show "((a, b, queue, matching_blocks), (a, b, w # queue, matching_blocks))
    \<in> measure (\<lambda>(a, b, queue, matching_blocks). sum_list (map window_size queue))"
    by (simp add: window_size_def split: prod.splits)
qed

declare blocks_loop.simps [simp del]

text \<open>
  The loop that merges adjacent blocks; its state is \<open>(i1, j1, k1)\<close> and
  \<open>non_adjacent\<close>.
\<close>

fun collapse :: "block list \<Rightarrow> block \<times> block list \<Rightarrow> block \<times> block list" where
  "collapse [] st = st"
| "collapse ((i2, j2, k2) # rest) ((i1, j1, k1), non_adjacent) =
     (if i1 + k1 = i2 \<and> j1 + k1 = j2
      then collapse rest ((i1, j1, k1 + k2), non_adjacent)
      else collapse rest
             ((i2, j2, k2), if k1 \<noteq> 0 then non_adjacent @ [(i1, j1, k1)] else non_adjacent))"

definition get_matching_blocks :: "string \<Rightarrow> string \<Rightarrow> block list" where
  "get_matching_blocks a b =
     (case collapse (sort (blocks_loop a b [(0, length a, 0, length b)] [])) ((0, 0, 0), []) of
        ((i1, j1, k1), non_adjacent) \<Rightarrow>
          (if k1 \<noteq> 0 then non_adjacent @ [(i1, j1, k1)] else non_adjacent)
          @ [(length a, length b, 0)])"

text \<open>\<open>sum(triple[-1] for triple in self.get_matching_blocks())\<close>.\<close>

definition block_size :: "block \<Rightarrow> nat" where
  "block_size x = snd (snd x)"

definition matches :: "string \<Rightarrow> string \<Rightarrow> nat" where
  "matches a b = sum_list (map block_size (get_matching_blocks a b))"

section \<open>Similarity score (app.py)\<close>

text \<open>
  \<open>_calculate_ratio(matches, length)\<close> of difflib: \<open>2.0 * matches / length\<close> in floats,
  the integers converted first; and \<open>SequenceMatcher.ratio\<close>.
\<close>

definition calculate_ratio :: "nat \<Rightarrow> nat \<Rightarrow> rat" where
  "calculate_ratio m len =
     (if len \<noteq> 0
      then binary64 (binary64 (2 * binary64 (of_nat m)) / binary64 (of_nat len))
      else 1)"

definition ratio :: "string \<Rightarrow> string \<Rightarrow> rat" where
  "ratio a b = calculate_ratio (matches a b) (length a + length b)"

text \<open>
  \<open>round(x, 2)\<close> on a float: the exact value of \<open>x\<close> is rounded to two decimals, a tie
  going to the even digit, and the result is the double nearest to that decimal.
\<close>

definition py_round2 :: "rat \<Rightarrow> rat" where
  "py_round2 x = binary64 (of_int (round_half_even (x * 100)) / 100)"

definition calculate_similarity :: "string \<Rightarrow> string \<Rightarrow> rat" where
  "calculate_similarity reference attempt =
     (let reference_normalized = normalize_text reference;
          attempt_normalized = normalize_text attempt
      in if reference_normalized = [] \<or> attempt_normalized = [] then 0
         else py_round2 (binary64 (ratio reference_normalized attempt_normalized * 100)))"

text \<open>Sample data for the concrete instances below.\<close>

definition sample_system_turn :: turn where
  "sample_system_turn = \<lparr>turn_author = Some ''system'', turn_text = Some ''be brief''\<rparr>"

definition sample_long_turn :: turn where
  "sample_long_turn =
     \<lparr>turn_author = Some ''user'', turn_text = Some (concat (replicate 3000 ''a ''))\<rparr>"

definition sample_long_reply :: string where
  "sample_long_reply = concat (replicate 200 ''a '')"

definition sample_entry :: "string \<Rightarrow> progress_entry" where
  "sample_entry i =
     \<lparr>entry_id = i, sentence_id = 1, content_type = ''sentence'', target = ''hello'',
      transcript = ''hello'', score = 100, created_at = 0\<rparr>"

definition sample_call :: save_call where
  "sample_call =
     \<lparr>call_write = NoClient, call_uuid = ''new'', call_now = 0, call_user_id = ''u@x.org'',
      call_content = \<lparr>item_id = 1, item_text = ''hello''\<rparr>, call_transcript = ''hello'',
      call_score = 100, call_content_type = ''sentence''\<rparr>"

definition sample_state :: progress_state where
  "sample_state =
     \<lparr>PROGRESS_CACHE = [''u@x.org'' \<mapsto> replicate 100 (sample_entry ''old'')],
      firestore_sessions = []\<rparr>"

definition good_reply :: json where
  "good_reply = JObj [(''candidates'',
     JArr [JObj [(''content'',
       JObj [(''parts'', JArr [JObj [(''text'', JStr ''Hi '')], JObj [(''text'', JStr ''there'')]])])]])]"

definition env_503_503_ok :: "int \<Rightarrow> attempt" where
  "env_503_503_ok k =
     (if k = 1 \<or> k = 2 then Raised (HTTPError (Some 503)) else Parsed good_reply)"

definition env_empty_then_ok :: "int \<Rightarrow> attempt" where
  "env_empty_then_ok k =
     (if k = 1 then Parsed (JObj [(''candidates'', JArr [])]) else Parsed good_reply)"

definition env_404 :: "int \<Rightarrow> attempt" where
  "env_404 k =
     (if k = 1 then Raised (HTTPError (Some 503)) else Raised (HTTPError (Some 404)))"

definition env_empty :: "int \<Rightarrow> attempt" where
  "env_empty k = Parsed (JObj [(''candidates'', JArr [])])"

definition env_direct_text :: "int \<Rightarrow> attempt" where
  "env_direct_text k = Parsed (JObj [(''candidates'',
     JArr [JObj [(''content'', JObj [(''text'', JStr ''Hello'')])]])])"

definition env_plain_content :: "int \<Rightarrow> attempt" where
  "env_plain_content k = Parsed (JObj [(''candidates'',
     JArr [JObj [(''content'', JStr ''Hello'')]])])"

definition env_no_content :: "int \<Rightarrow> attempt" where
  "env_no_content k = Parsed (JObj [(''candidates'',
     JArr [JObj [(''finishReason'', JStr ''STOP'')]])])"

definition env_all_503 :: "int \<Rightarrow> attempt" where
  "env_all_503 k = Raised (HTTPError (Some 503))"

section \<open>Properties of the string functions\<close>

lemma split_aux_nonspace:
  "list_all (\<lambda>c. \<not> isspace c) w \<Longrightarrow> split_aux (w @ s) cur = split_aux s (cur @ w)"
  by (induction w arbitrary: cur) auto

lemma split_aux_words:
  "list_all (\<lambda>c. \<not> isspace c) cur \<Longrightarrow> list_all is_word (split_aux s cur)"
  by (induction s arbitrary: cur) (auto simp: is_word_def)

lemma split_words: "list_all is_word (split s)"
  by (simp add: split_def split_aux_words)

lemma isspace_space: "isspace CHR '' ''"
  by (simp add: isspace_def)

lemma split_aux_word_space:
  assumes "is_word w"
  shows "split_aux (w @ CHR '' '' # s) [] = w # split_aux s []"
proof -
  have "split_aux (w @ CHR '' '' # s) [] = split_aux (CHR '' '' # s) w"
    using assms split_aux_nonspace [of w "CHR '' '' # s" "[]"] by (simp add: is_word_def)
  also have "\<dots> = w # split_aux s []"
    using assms by (simp add: is_word_def isspace_space)
  finally show ?thesis .
qed

lemma split_join_suffix:
  "list_all is_word ws \<Longrightarrow> ws \<noteq> [] \<Longrightarrow> list_all (\<lambda>c. \<not> isspace c) sfx \<Longrightarrow>
   split (join '' '' ws @ sfx) = butlast ws @ [last ws @ sfx]"
proof (induction "'' ''" ws rule: join.induct)
  case 1
  then show ?case by simp
next
  case (2 w)
  then have "list_all (\<lambda>c. \<not> isspace c) (w @ sfx)" "w @ sfx \<noteq> []"
    by (simp_all add: is_word_def)
  then show ?case
    using split_aux_nonspace [of "w @ sfx" "[]" "[]"] by (simp add: split_def)
next
  case (3 w v ws)
  then have "split_aux (w @ CHR '' '' # (join '' '' (v # ws) @ sfx)) [] =
      w # split_aux (join '' '' (v # ws) @ sfx) []"
    by (intro split_aux_word_space) simp
  with 3 show ?case by (simp add: split_def)
qed

lemma split_join: "list_all is_word ws \<Longrightarrow> split (join '' '' ws) = ws"
proof (cases "ws = []")
  case True
  then show ?thesis by (simp add: split_def)
next
  case False
  assume "list_all is_word ws"
  with False show ?thesis
    using split_join_suffix [of ws "[]"] by simp
qed

lemma split_replicate: "split (concat (replicate n ''a '')) = replicate n ''a''"
proof (induction n)
  case 0
  show ?case by (simp add: split_def)
next
  case (Suc n)
  have "split_aux (''a'' @ CHR '' '' # concat (replicate n ''a '')) [] =
        ''a'' # split_aux (concat (replicate n ''a '')) []"
    by (rule split_aux_word_space) (simp add: is_word_def isspace_def)
  with Suc show ?case by (simp add: split_def)
qed

section \<open>Text normalisation: tokens\<close>

lemma alnum_not_space: "alnum c \<Longrightarrow> \<not> isspace c"
  by (auto simp: alnum_def isspace_def Let_def)

lemma split_aux_re_sub: "split_aux (re_sub s) cur = tokens_aux s cur"
  by (induction s arbitrary: cur)
     (auto simp: re_sub_def in_class_def alnum_not_space isspace_space)

lemma tokens_aux_tokens:
  "list_all alnum cur \<Longrightarrow> list_all is_token (tokens_aux s cur)"
  by (induction s arbitrary: cur) (auto simp: is_token_def)

lemma tokens_are_tokens: "list_all is_token (tokens s)"
  by (simp add: tokens_def tokens_aux_tokens)

lemma token_is_word: "is_token w \<Longrightarrow> is_word w"
  by (auto simp: is_token_def is_word_def list_all_iff alnum_not_space)

text \<open>
  The claim C2 as written fails: a character outside the class is not deleted but
  replaced by a space, so it separates two tokens.
\<close>

theorem normalize_text_strips_counterexample:
  "normalize_text ''well-known'' = ''well known''
   \<and> spec_normalize_stripping ''well-known'' = ''wellknown''"
  by (simp add: normalize_text_def spec_normalize_stripping_def re_sub_def lower_def
      lower_char_def in_class_def alnum_def isspace_def split_def)

text \<open>
  Claim C2, amended. \<open>normalize_text\<close> lowercases its argument, replaces every character
  outside \<open>[a-z0-9\s]\<close> by a space and collapses whitespace: the result is the tokens of
  the lowercased string (its maximal runs of \<open>a-z0-9\<close>) joined by single spaces, with no
  leading or trailing whitespace, so that splitting it gives the tokens back.
\<close>

theorem normalize_text_tokens:
  "normalize_text s = join '' '' (split (re_sub (lower s)))
   \<and> normalize_text s = join '' '' (tokens (lower s))
   \<and> list_all is_token (tokens (lower s))
   \<and> split (normalize_text s) = tokens (lower s)"
proof -
  have t: "split (re_sub (lower s)) = tokens (lower s)"
    by (simp add: split_def tokens_def split_aux_re_sub)
  have n: "normalize_text s = join '' '' (tokens (lower s))"
    by (simp add: normalize_text_def t)
  have w: "list_all is_word (tokens (lower s))"
    using tokens_are_tokens [of "lower s"] by (auto simp: list_all_iff token_is_word)
  have "split (join '' '' (tokens (lower s))) = tokens (lower s)"
    using w by (rule split_join)
  with n t tokens_are_tokens [of "lower s"] show ?thesis by simp
qed

section \<open>Properties of float rounding\<close>

lemma bitlen_bounds_rat:
  assumes "0 < p"
  shows "(2::rat) powi (bitlen p - 1) \<le> of_int p \<and> (of_int p :: rat) < 2 powi bitlen p"
proof -
  from bitlen_bounds [OF assms]
  have lo: "2 ^ nat (bitlen p - 1) \<le> p" and hi: "p < 2 ^ nat (bitlen p)" by simp_all
  have pos: "1 \<le> bitlen p"
    using assms bitlen_eq_zero_iff [of p] bitlen_nonneg [of p] by linarith
  have "(of_int (2 ^ nat (bitlen p - 1)) :: rat) \<le> of_int p"
    using lo by (simp only: of_int_le_iff)
  then have l: "(2::rat) powi (bitlen p - 1) \<le> of_int p"
    using pos by (simp add: power_int_def)
  have "(of_int p :: rat) < of_int (2 ^ nat (bitlen p))"
    using hi by (simp only: of_int_less_iff)
  then have h: "(of_int p :: rat) < 2 powi bitlen p"
    using pos by (simp add: power_int_def)
  from l h show ?thesis by simp
qed

lemma binade_bounds:
  assumes "0 < x"
  shows "2 powi binade x \<le> x \<and> x < 2 powi (binade x + 1)"
proof -
  obtain p q where pq: "quotient_of x = (p, q)" by fastforce
  then have q: "0 < q" and x: "x = of_int p / of_int q"
    by (simp_all add: quotient_of_denom_pos quotient_of_div)
  with assms have p: "0 < p"
    by (simp add: zero_less_divide_iff)
  note bp = bitlen_bounds_rat [OF p] and bq = bitlen_bounds_rat [OF q]
  have qpos: "(0::rat) < of_int q" using q by simp
  have ppos: "(0::rat) \<le> of_int p" using p by simp
  have b: "binade x = (if 2 powi (bitlen p - bitlen q) \<le> x
      then bitlen p - bitlen q else bitlen p - bitlen q - 1)"
    by (simp add: binade_def pq)
  show ?thesis
  proof (cases "2 powi (bitlen p - bitlen q) \<le> x")
    case True
    have "x < 2 powi bitlen p / 2 powi (bitlen q - 1)"
      unfolding x using bp bq ppos by (intro frac_less) simp_all
    also have "\<dots> = 2 powi (bitlen p - bitlen q + 1)"
      by (simp add: power_int_diff power_int_add)
    finally show ?thesis using True b by simp
  next
    case False
    have "(2::rat) powi (bitlen p - 1) / 2 powi bitlen q \<le> x"
      unfolding x using bp bq qpos ppos by (intro frac_le) simp_all
    moreover have "(2::rat) powi (bitlen p - 1) / 2 powi bitlen q
        = 2 powi (bitlen p - bitlen q - 1)"
      by (simp add: power_int_diff)
    ultimately show ?thesis using False b by simp
  qed
qed

lemma powi_less_imp_less:
  assumes "(2::rat) powi m < 2 powi n"
  shows "m < n"
proof (rule ccontr)
  assume "\<not> m < n"
  then have "(2::rat) powi n \<le> 2 powi m"
    by (intro power_int_increasing) simp_all
  with assms show False by simp
qed

lemma binade_unique:
  assumes "2 powi e \<le> x" "x < 2 powi (e + 1)"
  shows "binade x = e"
proof -
  have pos: "0 < x"
    using assms(1) by (rule less_le_trans [rotated]) simp
  from binade_bounds [OF pos]
  have lo: "2 powi binade x \<le> x" and hi: "x < 2 powi (binade x + 1)" by simp_all
  have "(2::rat) powi e < 2 powi (binade x + 1)"
    using assms(1) hi by simp
  then have 1: "e < binade x + 1"
    by (rule powi_less_imp_less)
  have "(2::rat) powi binade x < 2 powi (e + 1)"
    using lo assms(2) by simp
  then have 2: "binade x < e + 1"
    by (rule powi_less_imp_less)
  from 1 2 show ?thesis by simp
qed

lemma round_half_even_of_int: "round_half_even (of_int n) = n"
  by (simp add: round_half_even_def)

lemma round_half_even_cases:
  "round_half_even x = \<lfloor>x\<rfloor> \<and> x - of_int \<lfloor>x\<rfloor> \<le> 1 / 2
   \<or> round_half_even x = \<lfloor>x\<rfloor> + 1 \<and> 1 / 2 \<le> x - of_int \<lfloor>x\<rfloor>"
  by (auto simp: round_half_even_def Let_def)

lemma round_half_even_mono:
  assumes "x \<le> y"
  shows "round_half_even x \<le> round_half_even y"
proof (cases "\<lfloor>x\<rfloor> = \<lfloor>y\<rfloor>")
  case True
  then have "x - of_int \<lfloor>x\<rfloor> \<le> y - of_int \<lfloor>y\<rfloor>"
    using assms by simp
  then show ?thesis
    using True by (auto simp: round_half_even_def Let_def)
next
  case False
  with assms have "\<lfloor>x\<rfloor> < \<lfloor>y\<rfloor>"
    using floor_mono [OF assms] by simp
  moreover have "round_half_even x \<le> \<lfloor>x\<rfloor> + 1"
    using round_half_even_cases [of x] by auto
  moreover have "\<lfloor>y\<rfloor> \<le> round_half_even y"
    using round_half_even_cases [of y] by auto
  ultimately show ?thesis by simp
qed

lemma round_half_even_ge: "of_int n \<le> x \<Longrightarrow> n \<le> round_half_even x"
  using round_half_even_mono [of "of_int n" x] by (simp add: round_half_even_of_int)

lemma round_half_even_le: "x \<le> of_int n \<Longrightarrow> round_half_even x \<le> n"
  using round_half_even_mono [of x "of_int n"] by (simp add: round_half_even_of_int)

lemma powi_pos: "(0::rat) < 2 powi k"
  by (simp add: zero_less_power_int)

lemma powi_nonneg: "(0::rat) \<le> 2 powi k"
  by (simp add: zero_le_power_int)

lemma binary64_pos:
  "0 < x \<Longrightarrow>
   binary64 x = of_int (round_half_even (x / 2 powi (binade x - 52))) * 2 powi (binade x - 52)"
  by (simp add: binary64_def Let_def)

lemma round_half_even_ge_pow:
  assumes "(2::rat) ^ n \<le> x"
  shows "(2::rat) ^ n \<le> of_int (round_half_even x)"
proof -
  have "(of_int (2 ^ n) :: rat) \<le> x" using assms by simp
  then have "2 ^ n \<le> round_half_even x" by (rule round_half_even_ge)
  then have "(of_int (2 ^ n) :: rat) \<le> of_int (round_half_even x)"
    by (simp only: of_int_le_iff)
  then show ?thesis by simp
qed

lemma round_half_even_le_pow:
  assumes "x \<le> (2::rat) ^ n"
  shows "of_int (round_half_even x) \<le> (2::rat) ^ n"
proof -
  have "x \<le> (of_int (2 ^ n) :: rat)" using assms by simp
  then have "round_half_even x \<le> 2 ^ n" by (rule round_half_even_le)
  then have "(of_int (round_half_even x) :: rat) \<le> of_int (2 ^ n)"
    by (simp only: of_int_le_iff)
  then show ?thesis by simp
qed

lemma powi_split_52: "(2::rat) powi e = 2 ^ 52 * 2 powi (e - 52)"
proof -
  have "e = 52 + (e - 52)" by simp
  then have "(2::rat) powi e = 2 powi (52 + (e - 52))" by (rule arg_cong)
  also have "\<dots> = 2 powi 52 * 2 powi (e - 52)"
    by (rule power_int_add) simp
  finally show ?thesis by simp
qed

lemma powi_split_53: "(2::rat) powi (e + 1) = 2 ^ 53 * 2 powi (e - 52)"
proof -
  have "e + 1 = 53 + (e - 52)" by simp
  then have "(2::rat) powi (e + 1) = 2 powi (53 + (e - 52))" by (rule arg_cong)
  also have "\<dots> = 2 powi 53 * 2 powi (e - 52)"
    by (rule power_int_add) simp
  finally show ?thesis by simp
qed

lemma scaled_bounds:
  assumes "0 < x"
  shows "(2::rat) ^ 52 \<le> x / 2 powi (binade x - 52)
    \<and> x / 2 powi (binade x - 52) \<le> 2 ^ 53"
proof -
  let ?u = "(2::rat) powi (binade x - 52)"
  from binade_bounds [OF assms]
  have lo: "2 powi binade x \<le> x" and hi: "x \<le> 2 powi (binade x + 1)" by simp_all
  have "2 ^ 52 * ?u \<le> x"
    using lo by (simp only: powi_split_52 [symmetric])
  then have l: "2 ^ 52 \<le> x / ?u"
    using powi_pos [of "binade x - 52"] by (simp only: pos_le_divide_eq)
  have "x \<le> 2 ^ 53 * ?u"
    using hi by (simp only: powi_split_53 [symmetric])
  then have h: "x / ?u \<le> 2 ^ 53"
    using powi_pos [of "binade x - 52"] by (simp only: pos_divide_le_eq)
  from l h show ?thesis by simp
qed

lemma binary64_range:
  assumes "0 < x"
  shows "2 powi binade x \<le> binary64 x \<and> binary64 x \<le> 2 powi (binade x + 1)"
proof -
  let ?u = "(2::rat) powi (binade x - 52)"
  let ?m = "(of_int (round_half_even (x / ?u)) :: rat)"
  from scaled_bounds [OF assms]
  have "2 ^ 52 \<le> ?m" and "?m \<le> 2 ^ 53"
    by (simp_all only: round_half_even_ge_pow round_half_even_le_pow)
  then have "2 ^ 52 * ?u \<le> ?m * ?u" and "?m * ?u \<le> 2 ^ 53 * ?u"
    using powi_nonneg [of "binade x - 52"] by (simp_all only: mult_right_mono)
  then have "2 powi binade x \<le> ?m * ?u" and "?m * ?u \<le> 2 powi (binade x + 1)"
    by (simp_all only: powi_split_52 [symmetric] powi_split_53 [symmetric])
  then show ?thesis
    by (simp only: binary64_pos [OF assms])
qed

lemma binary64_mono_pos:
  assumes "0 < x" "x \<le> y"
  shows "binary64 x \<le> binary64 y"
proof -
  have y: "0 < y" using assms by simp
  from binade_bounds [OF assms(1)] binade_bounds [OF y] assms(2)
  have "(2::rat) powi binade x < 2 powi (binade y + 1)" by simp
  then have le: "binade x \<le> binade y"
    using powi_less_imp_less [of "binade x" "binade y + 1"] by simp
  show ?thesis
  proof (cases "binade x = binade y")
    case True
    let ?u = "(2::rat) powi (binade y - 52)"
    have "x / ?u \<le> y / ?u"
      using assms(2) powi_nonneg by (rule divide_right_mono)
    then have "round_half_even (x / ?u) \<le> round_half_even (y / ?u)"
      by (rule round_half_even_mono)
    then have "(of_int (round_half_even (x / ?u)) :: rat) \<le> of_int (round_half_even (y / ?u))"
      by (simp only: of_int_le_iff)
    then have "(of_int (round_half_even (x / ?u)) :: rat) * ?u \<le> of_int (round_half_even (y / ?u)) * ?u"
      using powi_nonneg by (rule mult_right_mono)
    then show ?thesis
      by (simp add: binary64_pos [OF assms(1)] binary64_pos [OF y] True)
  next
    case False
    with le have "binade x + 1 \<le> binade y" by simp
    then have "(2::rat) powi (binade x + 1) \<le> 2 powi binade y"
      by (intro power_int_increasing) simp_all
    with binary64_range [OF assms(1)] binary64_range [OF y] show ?thesis by simp
  qed
qed

lemma binary64_0: "binary64 0 = 0"
  by (simp add: binary64_def)

lemma binary64_pos_pos: "0 < x \<Longrightarrow> 0 < binary64 x"
  using binary64_range [of x] by (auto intro: less_le_trans [rotated])

lemma binary64_mono:
  assumes "0 \<le> x" "x \<le> y"
  shows "binary64 x \<le> binary64 y"
proof (cases "x = 0")
  case True
  show ?thesis
  proof (cases "y = 0")
    case True
    with \<open>x = 0\<close> show ?thesis by simp
  next
    case False
    with assms True have "0 < y" by simp
    from binary64_pos_pos [OF this] True show ?thesis by (simp add: binary64_0)
  qed
next
  case False
  with assms have "0 < x" by simp
  then show ?thesis using assms(2) by (rule binary64_mono_pos)
qed

lemma binary64_exact:
  assumes "2 ^ 52 \<le> m" "m < 2 ^ 53"
  shows "binary64 (of_int m * 2 powi k) = of_int m * 2 powi k"
proof -
  let ?x = "(of_int m :: rat) * 2 powi k"
  have "(of_int (2 ^ 52) :: rat) \<le> of_int m" "(of_int m :: rat) < of_int (2 ^ 53)"
    using assms by (simp_all only: of_int_le_iff of_int_less_iff)
  then have m: "(2::rat) ^ 52 \<le> of_int m" "(of_int m :: rat) < 2 ^ 53"
    by simp_all
  have "(0::rat) < 2 ^ 52" by simp
  then have "(0::rat) < of_int m" using m(1) by (rule less_le_trans)
  then have pos: "0 < ?x"
    using powi_pos [of k] by (rule mult_pos_pos)
  have "2 ^ 52 * 2 powi k \<le> ?x"
    using m(1) powi_nonneg by (rule mult_right_mono)
  then have lo: "2 powi (k + 52) \<le> ?x"
    using powi_split_52 [of "k + 52"] by simp
  have "?x < 2 ^ 53 * 2 powi k"
    using m(2) powi_pos by (rule mult_strict_right_mono)
  then have hi: "?x < 2 powi (k + 52 + 1)"
    using powi_split_53 [of "k + 52"] by simp
  from lo hi have b: "binade ?x = k + 52"
    by (rule binade_unique)
  have "?x / 2 powi k = of_int m"
    using powi_pos [of k] by simp
  then show ?thesis
    unfolding binary64_pos [OF pos] b by (simp add: round_half_even_of_int)
qed

lemma binary64_1: "binary64 1 = 1"
  using binary64_exact [of "2 ^ 52" "- 52"] by (simp add: power_int_minus)

lemma binary64_100: "binary64 100 = 100"
  using binary64_exact [of "100 * 2 ^ 46" "- 46"] by (simp add: power_int_minus)

lemma binary64_double:
  assumes "0 \<le> x"
  shows "binary64 (2 * x) = 2 * binary64 x"
proof (cases "x = 0")
  case True
  then show ?thesis by (simp add: binary64_0)
next
  case False
  with assms have pos: "0 < x" by simp
  then have pos2: "0 < 2 * x" by simp
  from binade_bounds [OF pos]
  have "2 powi (binade x + 1) \<le> 2 * x" "2 * x < 2 powi (binade x + 1 + 1)"
    by (simp_all add: power_int_add)
  then have b: "binade (2 * x) = binade x + 1"
    by (rule binade_unique)
  have u: "(2::rat) powi (binade x + 1 - 52) = 2 * 2 powi (binade x - 52)"
    by (simp add: power_int_diff power_int_add)
  have "2 * x / (2 * 2 powi (binade x - 52)) = x / 2 powi (binade x - 52)"
    by simp
  then show ?thesis
    unfolding binary64_pos [OF pos] binary64_pos [OF pos2] b u by simp
qed

lemma binary64_idem:
  assumes "0 \<le> x"
  shows "binary64 (binary64 x) = binary64 x"
proof (cases "x = 0")
  case True
  then show ?thesis by (simp add: binary64_0)
next
  case False
  with assms have pos: "0 < x" by simp
  let ?u = "(2::rat) powi (binade x - 52)"
  let ?m = "round_half_even (x / ?u)"
  from scaled_bounds [OF pos]
  have "(2::rat) ^ 52 \<le> of_int ?m" and "(of_int ?m :: rat) \<le> 2 ^ 53"
    by (simp_all only: round_half_even_ge_pow round_half_even_le_pow)
  then have "(of_int (2 ^ 52) :: rat) \<le> of_int ?m" and "(of_int ?m :: rat) \<le> of_int (2 ^ 53)"
    by simp_all
  then have m: "2 ^ 52 \<le> ?m" "?m \<le> 2 ^ 53"
    by (simp_all only: of_int_le_iff)
  show ?thesis
  proof (cases "?m < 2 ^ 53")
    case True
    from binary64_exact [OF m(1) True, of "binade x - 52"]
    show ?thesis by (simp only: binary64_pos [OF pos])
  next
    case False
    with m(2) have top: "?m = 2 ^ 53" by simp
    have "of_int ?m * ?u = (2::rat) ^ 53 * ?u"
      by (simp only: top) simp
    also have "\<dots> = 2 powi (binade x + 1)"
      by (simp only: powi_split_53 [symmetric])
    also have "\<dots> = 2 ^ 52 * 2 powi (binade x + 1 - 52)"
      by (rule powi_split_52)
    finally have v: "binary64 x = of_int (2 ^ 52) * 2 powi (binade x + 1 - 52)"
      by (simp add: binary64_pos [OF pos])
    have "binary64 (of_int (2 ^ 52) * 2 powi (binade x + 1 - 52))
        = of_int (2 ^ 52) * 2 powi (binade x + 1 - 52)"
      by (rule binary64_exact) simp_all
    then show ?thesis by (simp only: v)
  qed
qed

section \<open>Properties of the matching blocks\<close>

lemma sum_list_map_insort:
  "sum_list (map f (insort x xs)) = f x + sum_list (map f xs)"
  for f :: "block \<Rightarrow> nat"
  by (induction xs) simp_all

lemma sum_list_map_sort: "sum_list (map f (sort xs)) = sum_list (map f xs)"
  for f :: "block \<Rightarrow> nat"
  by (induction xs) (simp_all add: sum_list_map_insort)

lemma block_size_triple: "block_size (i, j, k) = k"
  by (simp add: block_size_def)

lemma collapse_sum:
  "block_size (fst (collapse bs (x, non_adjacent)))
     + sum_list (map block_size (snd (collapse bs (x, non_adjacent))))
   = block_size x + sum_list (map block_size non_adjacent) + sum_list (map block_size bs)"
proof (induction bs arbitrary: x non_adjacent)
  case Nil
  show ?case by simp
next
  case (Cons y bs)
  obtain i1 j1 k1 where x: "x = (i1, j1, k1)" by (cases x) auto
  obtain i2 j2 k2 where y: "y = (i2, j2, k2)" by (cases y) auto
  show ?case
    by (simp add: x y Cons.IH block_size_triple)
qed

lemma matches_blocks_loop:
  "matches a b = sum_list (map block_size (blocks_loop a b [(0, length a, 0, length b)] []))"
proof -
  let ?bs = "sort (blocks_loop a b [(0, length a, 0, length b)] [])"
  obtain i1 j1 k1 non_adjacent where c: "collapse ?bs ((0, 0, 0), []) = ((i1, j1, k1), non_adjacent)"
    by (metis prod.exhaust)
  from collapse_sum [of ?bs "(0, 0, 0)" "[]"]
  have "k1 + sum_list (map block_size non_adjacent) = sum_list (map block_size ?bs)"
    by (simp add: c block_size_triple)
  then have "matches a b = sum_list (map block_size ?bs)"
    by (simp add: matches_def get_matching_blocks_def c block_size_triple)
  then show ?thesis by (simp only: sum_list_map_sort)
qed

definition a_span :: "window \<Rightarrow> nat" where
  "a_span w = (case w of (alo, ahi, blo, bhi) \<Rightarrow> ahi - alo)"

definition b_span :: "window \<Rightarrow> nat" where
  "b_span w = (case w of (alo, ahi, blo, bhi) \<Rightarrow> bhi - blo)"

lemma push_windows_span:
  "block_size (find_in a b w) + sum_list (map a_span (push_windows (find_in a b w) w queue))
     \<le> sum_list (map a_span (w # queue))
   \<and> block_size (find_in a b w) + sum_list (map b_span (push_windows (find_in a b w) w queue))
     \<le> sum_list (map b_span (w # queue))"
proof -
  obtain alo ahi blo bhi where w: "w = (alo, ahi, blo, bhi)"
    by (cases w) auto
  obtain i j k where x: "find_longest_match a b alo ahi blo bhi = (i, j, k)"
    by (cases "find_longest_match a b alo ahi blo bhi") auto
  from find_longest_match_window [of alo ahi blo bhi a b]
  have "alo \<le> i" "blo \<le> j"
    "i = alo \<and> j = blo \<and> k = 0 \<or> i + k \<le> ahi \<and> j + k \<le> bhi"
    by (auto simp: in_window_def x)
  then show ?thesis
    by (auto simp: push_windows_def a_span_def b_span_def block_size_triple find_in_def w x)
qed

lemma blocks_loop_span:
  "sum_list (map block_size (blocks_loop a b queue mbs))
     \<le> sum_list (map block_size mbs) + sum_list (map a_span queue)
   \<and> sum_list (map block_size (blocks_loop a b queue mbs))
     \<le> sum_list (map block_size mbs) + sum_list (map b_span queue)"
proof (induction a b queue mbs rule: blocks_loop.induct)
  case (1 a b mbs)
  show ?case by (simp add: blocks_loop.simps)
next
  case (2 a b w queue mbs)
  show ?case
  proof (cases "snd (snd (find_in a b w)) \<noteq> 0")
    case True
    have step: "blocks_loop a b (w # queue) mbs =
        blocks_loop a b (push_windows (find_in a b w) w queue) (mbs @ [find_in a b w])"
      using True by (simp add: blocks_loop.simps)
    from "2.IH"(1) [OF True] push_windows_span [of a b w queue]
    show ?thesis unfolding step by simp
  next
    case False
    then have step: "blocks_loop a b (w # queue) mbs = blocks_loop a b queue mbs"
      by (simp add: blocks_loop.simps)
    from "2.IH"(2) [OF False]
    show ?thesis unfolding step by simp
  qed
qed

lemma matches_le: "matches a b \<le> length a \<and> matches a b \<le> length b"
  using blocks_loop_span [of a b "[(0, length a, 0, length b)]" "[]"]
  by (simp add: matches_blocks_loop a_span_def b_span_def)

text \<open>
  Matching a string against itself. \<open>run a i\<close> is the length of the run of elements
  that are not popular ending at index \<open>i\<close>; on the diagonal the inner loop computes
  exactly this length, and no cell off the diagonal exceeds it.
\<close>

fun run :: "string \<Rightarrow> nat \<Rightarrow> nat" where
  "run a 0 = (if bpopular a (a ! 0) then 0 else 1)"
| "run a (Suc i) = (if bpopular a (a ! Suc i) then 0 else run a i + 1)"

definition prev_run :: "string \<Rightarrow> nat \<Rightarrow> nat" where
  "prev_run a i = (if i = 0 then 0 else run a (i - 1))"

lemma run_step: "run a i = (if bpopular a (a ! i) then 0 else prev_run a i + 1)"
  by (cases i) (simp_all add: prev_run_def)

lemma prev_run_Suc: "prev_run a (Suc i) = run a i"
  by (simp add: prev_run_def)

lemma set_indices: "set (indices b c) = {j. j < length b \<and> b ! j = c}"
  by (auto simp: indices_def)

lemma sorted_indices: "sorted (indices b c)"
  by (simp add: indices_def sorted_wrt_filter)

lemma distinct_indices: "distinct (indices b c)"
  by (simp add: indices_def)

definition row_diag :: "string \<Rightarrow> nat \<Rightarrow> (nat \<rightharpoonup> nat) \<Rightarrow> bool" where
  "row_diag a i j2len =
     ((\<forall>j k. j2len j = Some k \<longrightarrow> k \<le> run a j \<and> k \<le> prev_run a i)
      \<and> j2lenget j2len i = prev_run a i)"

definition best_diag :: "string \<Rightarrow> nat \<Rightarrow> block \<Rightarrow> bool" where
  "best_diag a i best =
     (case best of (besti, bestj, bestsize) \<Rightarrow>
        besti = bestj \<and> (\<forall>i'<i. run a i' \<le> bestsize))"

lemma j2lenget_le:
  assumes "row_diag a i j2len"
  shows "j2lenget j2len j \<le> prev_run a j \<and> j2lenget j2len j \<le> prev_run a i"
proof (cases "j = 0")
  case True
  then show ?thesis by (simp add: j2lenget_def)
next
  case False
  show ?thesis
  proof (cases "j2len (j - 1)")
    case None
    with False show ?thesis by (simp add: j2lenget_def)
  next
    case (Some k)
    with assms have "k \<le> run a (j - 1) \<and> k \<le> prev_run a i"
      unfolding row_diag_def by blast
    with Some False show ?thesis by (simp add: j2lenget_def prev_run_def)
  qed
qed

lemma inner_loop_diag:
  assumes row: "row_diag a i j2len"
    and np: "\<not> bpopular a (a ! i)"
  shows "sorted js \<Longrightarrow> distinct js \<Longrightarrow> \<forall>j\<in>set js. j < bhi \<and> a ! j = a ! i \<Longrightarrow>
    best_diag a i best \<Longrightarrow>
    \<forall>j k. new j = Some k \<longrightarrow> k \<le> run a j \<and> k \<le> run a i \<Longrightarrow>
    i \<in> set js \<or> new i = Some (run a i) \<and> run a i \<le> snd (snd best) \<and> (\<forall>j\<in>set js. i < j) \<Longrightarrow>
    best_diag a (Suc i) (snd (inner_loop j2len i 0 bhi js (new, best)))
    \<and> row_diag a (Suc i) (fst (inner_loop j2len i 0 bhi js (new, best)))"
proof (induction js arbitrary: new best)
  case Nil
  obtain besti bestj bestsize where best: "best = (besti, bestj, bestsize)"
    by (cases best) auto
  from Nil.prems(6) have i: "new i = Some (run a i)" "run a i \<le> bestsize"
    by (simp_all add: best)
  have b: "best_diag a (Suc i) best"
    using Nil.prems(4) i(2) by (auto simp: best_diag_def best less_Suc_eq)
  have r: "row_diag a (Suc i) new"
    using Nil.prems(5) i(1) by (auto simp: row_diag_def prev_run_Suc j2lenget_def)
  from b r show ?case by simp
next
  case (Cons j js)
  obtain besti bestj bestsize where best: "best = (besti, bestj, bestsize)"
    by (cases best) auto
  let ?k = "j2lenget j2len j + 1"
  from Cons.prems(3) have j: "j < bhi" "a ! j = a ! i" by simp_all
  have less: "\<forall>x\<in>set js. j < x"
  proof
    fix x assume x: "x \<in> set js"
    with Cons.prems(1) have "j \<le> x" by simp
    moreover from x Cons.prems(2) have "j \<noteq> x" by auto
    ultimately show "j < x" by simp
  qed
  from Cons.prems(1,2) less have js: "sorted js" "distinct js" "j \<notin> set js" "\<forall>x\<in>set js. j < x"
    by simp_all
  from Cons.prems(3) have rest: "\<forall>j\<in>set js. j < bhi \<and> a ! j = a ! i" by simp
  have runj: "run a j = prev_run a j + 1" and runi: "run a i = prev_run a i + 1"
    using np j(2) by (simp_all add: run_step)
  from j2lenget_le [OF row, of j] runj runi
  have k: "?k \<le> run a j" "?k \<le> run a i" by simp_all
  have new': "\<forall>x k. (new(j \<mapsto> ?k)) x = Some k \<longrightarrow> k \<le> run a x \<and> k \<le> run a i"
    using Cons.prems(5) k by auto
  from Cons.prems(4) have bd: "besti = bestj" "\<forall>i'<i. run a i' \<le> bestsize"
    by (simp_all add: best_diag_def best)
  show ?case
  proof (cases "j = i")
    case True
    have ki: "?k = run a i"
      using row runi True by (simp add: row_diag_def)
    have after: "(new(j \<mapsto> ?k)) i = Some (run a i) \<and> (\<forall>x\<in>set js. i < x)"
      using True ki js(4) by simp
    show ?thesis
    proof (cases "bestsize < ?k")
      case big: True
      have step: "inner_loop j2len i 0 bhi (j # js) (new, best) =
          inner_loop j2len i 0 bhi js (new(j \<mapsto> ?k), i + 1 - ?k, j + 1 - ?k, ?k)"
        using big j best by simp
      have b: "best_diag a i (i + 1 - ?k, j + 1 - ?k, ?k)"
        using bd(2) big True by (auto simp: best_diag_def)
      have c: "i \<in> set js \<or> (new(j \<mapsto> ?k)) i = Some (run a i)
          \<and> run a i \<le> snd (snd (i + 1 - ?k, j + 1 - ?k, ?k)) \<and> (\<forall>x\<in>set js. i < x)"
        using after ki True by simp
      show ?thesis
        unfolding step by (rule Cons.IH [OF js(1,2) rest b new' c])
    next
      case small: False
      have step: "inner_loop j2len i 0 bhi (j # js) (new, best) =
          inner_loop j2len i 0 bhi js (new(j \<mapsto> ?k), best)"
        using small j best by simp
      have c: "i \<in> set js \<or> (new(j \<mapsto> ?k)) i = Some (run a i)
          \<and> run a i \<le> snd (snd best) \<and> (\<forall>x\<in>set js. i < x)"
        using after ki small True by (simp add: best)
      show ?thesis
        unfolding step by (rule Cons.IH [OF js(1,2) rest Cons.prems(4) new' c])
    qed
  next
    case False
    have small: "\<not> bestsize < ?k"
    proof (cases "i \<in> set js")
      case True
      with js(4) have "j < i" by simp
      with bd(2) have "run a j \<le> bestsize" by simp
      with k(1) show ?thesis by simp
    next
      case notin: False
      with Cons.prems(6) False have "run a i \<le> bestsize"
        by (simp add: best)
      with k(2) show ?thesis by simp
    qed
    have step: "inner_loop j2len i 0 bhi (j # js) (new, best) =
        inner_loop j2len i 0 bhi js (new(j \<mapsto> ?k), best)"
      using small j best by simp
    have c: "i \<in> set js \<or> (new(j \<mapsto> ?k)) i = Some (run a i)
        \<and> run a i \<le> snd (snd best) \<and> (\<forall>x\<in>set js. i < x)"
      using Cons.prems(6) False by auto
    show ?thesis
      unfolding step by (rule Cons.IH [OF js(1,2) rest Cons.prems(4) new' c])
  qed
qed

lemma outer_loop_diag:
  assumes "row_diag a i j2len" "best_diag a i best" "n = length a"
  shows "fst (snd (outer_loop a a 0 n [i..<n] (j2len, best)))
    = fst (snd (snd (outer_loop a a 0 n [i..<n] (j2len, best))))"
  using assms(1,2)
proof (induction "n - i" arbitrary: i j2len best)
  case 0
  then show ?case
    by (cases best) (simp add: best_diag_def)
next
  case (Suc m)
  then have lt: "i < n" by simp
  have m: "m = n - Suc i" using Suc.hyps(2) by simp
  let ?st = "inner_loop j2len i 0 n (b2j_get a (a ! i)) (Map.empty, best)"
  have next_row: "best_diag a (Suc i) (snd ?st) \<and> row_diag a (Suc i) (fst ?st)"
  proof (cases "bpopular a (a ! i)")
    case True
    then have st: "?st = (Map.empty, best)"
      by (simp add: b2j_get_def)
    have "run a i = 0" using True by (simp add: run_step)
    then have "best_diag a (Suc i) best" "row_diag a (Suc i) Map.empty"
      using Suc.prems(2)
      by (auto simp: best_diag_def row_diag_def prev_run_Suc j2lenget_def less_Suc_eq)
    then show ?thesis by (simp add: st)
  next
    case False
    then have js: "b2j_get a (a ! i) = indices a (a ! i)"
      by (simp add: b2j_get_def)
    have mem: "i \<in> set (indices a (a ! i))"
      using lt assms(3) by (simp add: set_indices)
    have all: "\<forall>j\<in>set (indices a (a ! i)). j < n \<and> a ! j = a ! i"
      using assms(3) by (simp add: set_indices)
    have c: "i \<in> set (indices a (a ! i)) \<or> Map.empty i = Some (run a i)
        \<and> run a i \<le> snd (snd best) \<and> (\<forall>j\<in>set (indices a (a ! i)). i < j)"
      using mem by simp
    have e: "\<forall>j k. Map.empty j = Some k \<longrightarrow> k \<le> run a j \<and> k \<le> run a i"
      by simp
    from inner_loop_diag [OF Suc.prems(1) False sorted_indices distinct_indices all
        Suc.prems(2) e c]
    show ?thesis by (simp only: js)
  qed
  from Suc.hyps(1) [OF m] next_row
  have "fst (snd (outer_loop a a 0 n [Suc i..<n] (fst ?st, snd ?st)))
    = fst (snd (snd (outer_loop a a 0 n [Suc i..<n] (fst ?st, snd ?st))))"
    by blast
  then show ?case
    using lt by (simp add: upt_conv_Cons)
qed

lemma extend_down_self:
  "extend_down a a 0 0 False (d, d, k) = (0, 0, k + d)"
proof (induction d arbitrary: k)
  case 0
  show ?case by (subst extend_down.simps) simp
next
  case (Suc d)
  show ?case
    by (subst extend_down.simps) (simp add: isbjunk_def Suc)
qed

lemma extend_up_self:
  "s \<le> n \<Longrightarrow> extend_up a a n n False (0, 0, s) = (0, 0, n)"
proof (induction "n - s" arbitrary: s)
  case 0
  then show ?case by (subst extend_up.simps) simp
next
  case (Suc m)
  then have "m = n - (s + 1)" "s + 1 \<le> n" and lt: "s < n" by simp_all
  from Suc.hyps(1) [OF this(1,2)] lt show ?case
    by (subst extend_up.simps) (simp add: isbjunk_def)
qed

lemma find_longest_match_self:
  "find_longest_match a a 0 (length a) 0 (length a) = (0, 0, length a)"
proof -
  let ?n = "length a"
  let ?best = "snd (outer_loop a a 0 ?n [0..<?n] (Map.empty, 0, 0, 0))"
  obtain d e k where best: "?best = (d, e, k)" by (cases ?best) auto
  have r0: "row_diag a 0 Map.empty"
    by (simp add: row_diag_def prev_run_def j2lenget_def)
  have b0: "best_diag a 0 (0, 0, 0)"
    by (simp add: best_diag_def)
  from outer_loop_diag [OF r0 b0 refl] best have de: "e = d" by simp
  have w0: "in_window 0 ?n 0 ?n (0, 0, 0)"
    by (simp add: in_window_def)
  from outer_loop_window [OF row_bounded_empty le_refl w0, of a a] best
  have dk: "k + d \<le> ?n"
    by (auto simp: in_window_def de)
  have 1: "extend_down a a 0 0 False ?best = (0, 0, k + d)"
    by (simp add: best de extend_down_self)
  have 2: "extend_up a a ?n ?n False (0, 0, k + d) = (0, 0, ?n)"
    using dk by (rule extend_up_self)
  have 3: "extend_down a a 0 0 True (0, 0, ?n) = (0, 0, ?n)"
    by (subst extend_down.simps) simp
  have 4: "extend_up a a ?n ?n True (0, 0, ?n) = (0, 0, ?n)"
    by (subst extend_up.simps) simp
  show ?thesis
    unfolding find_longest_match_def by (simp only: 1 2 3 4)
qed

lemma matches_self: "matches a a = length a"
proof -
  have f: "find_in a a (0, length a, 0, length a) = (0, 0, length a)"
    by (simp add: find_in_def find_longest_match_self)
  have "sum_list (map block_size (blocks_loop a a [(0, length a, 0, length a)] [])) = length a"
  proof (cases "length a = 0")
    case True
    then have "blocks_loop a a [(0, length a, 0, length a)] [] = []"
      using f by (subst blocks_loop.simps) (simp add: blocks_loop.simps)
    with True show ?thesis by simp
  next
    case False
    then have "blocks_loop a a [(0, length a, 0, length a)] [] = [(0, 0, length a)]"
      using f by (subst blocks_loop.simps) (simp add: blocks_loop.simps push_windows_def)
    then show ?thesis by (simp add: block_size_triple)
  qed
  then show ?thesis by (simp only: matches_blocks_loop)
qed

section \<open>Properties of the similarity score\<close>

lemma binary64_nonneg: "0 \<le> x \<Longrightarrow> 0 \<le> binary64 x"
  using binary64_mono [of 0 x] by (simp add: binary64_0)

lemma binary64_of_nat_double: "binary64 (of_nat (2 * n)) = 2 * binary64 (of_nat n)"
  using binary64_double [of "of_nat n"] by simp

lemma calculate_ratio_range:
  assumes "2 * m \<le> len"
  shows "0 \<le> calculate_ratio m len \<and> calculate_ratio m len \<le> 1"
proof (cases "len = 0")
  case True
  then show ?thesis by (simp add: calculate_ratio_def)
next
  case False
  let ?m = "binary64 (of_nat m)" and ?l = "binary64 (of_nat len)"
  have m0: "0 \<le> ?m" by (simp add: binary64_nonneg)
  have num: "binary64 (2 * ?m) = 2 * ?m"
    using binary64_double [OF m0] by (simp add: binary64_idem)
  have "(1::rat) \<le> of_nat len" using False by (simp add: Suc_le_eq)
  then have "binary64 1 \<le> ?l" by (intro binary64_mono) simp_all
  then have l1: "1 \<le> ?l" by (simp add: binary64_1)
  have "(of_nat (2 * m) :: rat) \<le> of_nat len"
    using assms by (simp only: of_nat_le_iff)
  then have "binary64 (of_nat (2 * m)) \<le> ?l"
    by (intro binary64_mono) simp_all
  then have le: "2 * ?m \<le> ?l"
    by (simp only: binary64_of_nat_double)
  have q0: "0 \<le> 2 * ?m / ?l"
    using m0 l1 by simp
  have q1: "2 * ?m / ?l \<le> 1"
    using le l1 by simp
  have "0 \<le> binary64 (2 * ?m / ?l)"
    using q0 by (rule binary64_nonneg)
  moreover have "binary64 (2 * ?m / ?l) \<le> binary64 1"
    using q0 q1 by (rule binary64_mono)
  ultimately show ?thesis
    using False by (simp add: calculate_ratio_def num binary64_1)
qed

lemma ratio_range: "0 \<le> ratio a b \<and> ratio a b \<le> 1"
proof -
  from matches_le [of a b] have "2 * matches a b \<le> length a + length b" by simp
  then show ?thesis unfolding ratio_def by (rule calculate_ratio_range)
qed

lemma ratio_self:
  assumes "a \<noteq> []"
  shows "ratio a a = 1"
proof -
  let ?n = "binary64 (of_nat (length a))"
  have "(0::rat) < of_nat (length a)" using assms by simp
  then have pos: "0 < ?n" by (rule binary64_pos_pos)
  have "0 \<le> ?n" using pos by simp
  then have num: "binary64 (2 * ?n) = 2 * ?n"
    using binary64_double [of ?n] by (simp add: binary64_idem)
  have "length a + length a = 2 * length a" by simp
  then have den: "binary64 (of_nat (length a + length a)) = 2 * ?n"
    by (simp only: binary64_of_nat_double)
  have q: "2 * ?n / (2 * ?n) = 1" using pos by simp
  have len: "length a + length a \<noteq> 0" using assms by simp
  have "ratio a a = binary64 (binary64 (2 * ?n) / binary64 (of_nat (length a + length a)))"
    unfolding ratio_def calculate_ratio_def matches_self using len by (simp only: if_True not_False_eq_True)
  also have "\<dots> = binary64 (2 * ?n / (2 * ?n))"
    by (simp only: num den)
  also have "\<dots> = 1"
    by (simp only: q binary64_1)
  finally show ?thesis .
qed

lemma round_half_even_close: "\<bar>of_int (round_half_even y) - y\<bar> \<le> 1 / 2"
proof -
  have "of_int \<lfloor>y\<rfloor> \<le> y" "y < of_int \<lfloor>y\<rfloor> + 1" by linarith+
  with round_half_even_cases [of y] show ?thesis by auto
qed

lemma py_round2_range:
  assumes "0 \<le> x" "x \<le> 100"
  shows "0 \<le> py_round2 x \<and> py_round2 x \<le> 100"
proof -
  let ?h = "round_half_even (x * 100)"
  have "(of_int 0 :: rat) \<le> x * 100" "x * 100 \<le> of_int 10000"
    using assms by simp_all
  then have "0 \<le> ?h" "?h \<le> 10000"
    by (simp_all only: round_half_even_ge round_half_even_le)
  then have "(of_int 0 :: rat) \<le> of_int ?h" "(of_int ?h :: rat) \<le> of_int 10000"
    by (simp_all only: of_int_le_iff)
  then have h: "(0::rat) \<le> of_int ?h / 100" "(of_int ?h :: rat) / 100 \<le> 100"
    by simp_all
  have "0 \<le> binary64 (of_int ?h / 100)"
    using h(1) by (rule binary64_nonneg)
  moreover have "binary64 (of_int ?h / 100) \<le> binary64 100"
    using h by (rule binary64_mono)
  ultimately show ?thesis
    by (simp add: py_round2_def binary64_100)
qed

lemma py_round2_100: "py_round2 100 = 100"
proof -
  have "round_half_even (100 * 100) = 10000"
    using round_half_even_of_int [of 10000] by simp
  then show ?thesis by (simp add: py_round2_def binary64_100)
qed

lemma scaled_ratio_range:
  "0 \<le> binary64 (ratio a b * 100) \<and> binary64 (ratio a b * 100) \<le> 100"
proof -
  from ratio_range [of a b] have r: "0 \<le> ratio a b * 100" "ratio a b * 100 \<le> 100"
    by simp_all
  have "0 \<le> binary64 (ratio a b * 100)"
    using r(1) by (rule binary64_nonneg)
  moreover have "binary64 (ratio a b * 100) \<le> binary64 100"
    using r by (rule binary64_mono)
  ultimately show ?thesis by (simp add: binary64_100)
qed

text \<open>
  The claim C6 as written fails where both normalised strings are empty: they are
  identical, and the score is 0.
\<close>

theorem calculate_similarity_range_counterexample:
  "normalize_text ''?'' = normalize_text ''!'' \<and> calculate_similarity ''?'' ''!'' = 0"
  by (simp add: calculate_similarity_def normalize_text_def re_sub_def lower_def lower_char_def
      in_class_def alnum_def isspace_def split_def)

text \<open>
  Claim C6, amended. The score of every pair of strings lies between 0 and 100, and it is
  100 for every pair whose normalised forms are identical and not empty.
\<close>

theorem calculate_similarity_range:
  "0 \<le> calculate_similarity reference attempt
   \<and> calculate_similarity reference attempt \<le> 100
   \<and> (normalize_text reference = normalize_text attempt \<and> normalize_text reference \<noteq> [] \<longrightarrow>
        calculate_similarity reference attempt = 100)"
proof -
  let ?r = "normalize_text reference" and ?a = "normalize_text attempt"
  have range: "0 \<le> calculate_similarity reference attempt
      \<and> calculate_similarity reference attempt \<le> 100"
  proof (cases "?r = [] \<or> ?a = []")
    case True
    then show ?thesis by (auto simp: calculate_similarity_def)
  next
    case False
    from scaled_ratio_range [of ?r ?a]
    have "0 \<le> py_round2 (binary64 (ratio ?r ?a * 100))
        \<and> py_round2 (binary64 (ratio ?r ?a * 100)) \<le> 100"
      by (intro py_round2_range) simp_all
    with False show ?thesis by (simp add: calculate_similarity_def)
  qed
  have same: "calculate_similarity reference attempt = 100"
    if "?r = ?a \<and> ?r \<noteq> []"
  proof -
    from that have eq: "?r = ?a" by simp
    from that have ne: "?a \<noteq> []" by auto
    have "ratio ?a ?a = 1" using ne by (rule ratio_self)
    then have "py_round2 (binary64 (ratio ?a ?a * 100)) = 100"
      by (simp add: binary64_100 py_round2_100)
    with ne show ?thesis
      unfolding calculate_similarity_def eq by simp
  qed
  from range same show ?thesis by blast
qed

theorem calculate_similarity_range_witness:
  "normalize_text ''She sells seashells by the seashore.''
     = normalize_text ''she sells seashells by the seashore''
   \<and> normalize_text ''She sells seashells by the seashore.'' \<noteq> []
   \<and> calculate_similarity ''She sells seashells by the seashore.''
        ''she sells seashells by the seashore'' = 100"
proof -
  have n: "normalize_text ''She sells seashells by the seashore.''
      = ''she sells seashells by the seashore''"
    "normalize_text ''she sells seashells by the seashore''
      = ''she sells seashells by the seashore''"
    by code_simp+
  from calculate_similarity_range [of "''She sells seashells by the seashore.''"
      "''she sells seashells by the seashore''"]
  show ?thesis by (simp add: n)
qed

text \<open>
  Claim C1. When either normalised string is empty the score is 0. Otherwise it is
  \<open>round(ratio * 100, 2)\<close> for the \<open>SequenceMatcher\<close> ratio of the two normalised strings,
  \<open>2.0 * matches / (len(a) + len(b))\<close> with \<open>matches\<close> the total size of the matching
  blocks: the double nearest to a whole number of hundredths that lies within half a
  hundredth of the scaled ratio.
\<close>

theorem calculate_similarity_value:
  "(normalize_text reference = [] \<or> normalize_text attempt = [] \<longrightarrow>
      calculate_similarity reference attempt = 0)
   \<and> (normalize_text reference \<noteq> [] \<and> normalize_text attempt \<noteq> [] \<longrightarrow>
      calculate_similarity reference attempt
        = py_round2 (binary64 (ratio (normalize_text reference) (normalize_text attempt) * 100))
      \<and> ratio (normalize_text reference) (normalize_text attempt)
        = binary64 (binary64 (2 * binary64
              (of_nat (matches (normalize_text reference) (normalize_text attempt))))
            / binary64 (of_nat (length (normalize_text reference)
                + length (normalize_text attempt))))
      \<and> (\<exists>h. calculate_similarity reference attempt = binary64 (of_int h / 100)
            \<and> \<bar>of_int h / 100
                - binary64 (ratio (normalize_text reference) (normalize_text attempt) * 100)\<bar>
              \<le> 1 / 200))"
proof -
  let ?r = "normalize_text reference" and ?a = "normalize_text attempt"
  let ?x = "binary64 (ratio ?r ?a * 100)"
  have empty: "calculate_similarity reference attempt = 0" if "?r = [] \<or> ?a = []"
    using that by (auto simp: calculate_similarity_def)
  have score: "calculate_similarity reference attempt = py_round2 ?x"
    if "?r \<noteq> [] \<and> ?a \<noteq> []"
    using that by (simp add: calculate_similarity_def)
  have rat: "ratio ?r ?a
      = binary64 (binary64 (2 * binary64 (of_nat (matches ?r ?a)))
          / binary64 (of_nat (length ?r + length ?a)))"
    if "?r \<noteq> [] \<and> ?a \<noteq> []"
    using that by (simp add: ratio_def calculate_ratio_def)
  have close: "\<bar>of_int (round_half_even (?x * 100)) / 100 - ?x\<bar> \<le> 1 / 200"
  proof -
    let ?h = "(of_int (round_half_even (?x * 100)) :: rat)"
    have "?h / 100 - ?x = (?h - ?x * 100) / 100"
      by (simp add: diff_divide_distrib)
    then have "\<bar>?h / 100 - ?x\<bar> = \<bar>(?h - ?x * 100) / 100\<bar>"
      by (rule arg_cong)
    also have "\<dots> = \<bar>?h - ?x * 100\<bar> / 100"
      by (simp only: abs_divide)
    also have "\<dots> \<le> (1 / 2) / 100"
      using round_half_even_close [of "?x * 100"] by (intro divide_right_mono) simp_all
    finally show ?thesis by simp
  qed
  have hund: "\<exists>h. calculate_similarity reference attempt = binary64 (of_int h / 100)
      \<and> \<bar>of_int h / 100 - ?x\<bar> \<le> 1 / 200"
    if "?r \<noteq> [] \<and> ?a \<noteq> []"
    using score [OF that] close by (intro exI [of _ "round_half_even (?x * 100)"])
      (simp add: py_round2_def)
  from empty score rat hund show ?thesis by blast
qed

theorem calculate_similarity_value_witness:
  "normalize_text ''?!'' = []
   \<and> calculate_similarity ''?!'' ''hello'' = 0
   \<and> normalize_text ''abc'' \<noteq> [] \<and> normalize_text ''abd'' \<noteq> []
   \<and> matches (normalize_text ''abc'') (normalize_text ''abd'') = 2
   \<and> calculate_similarity ''abc'' ''abd'' = binary64 (6667 / 100)"
proof -
  have e: "normalize_text ''?!'' = []"
    by (simp add: normalize_text_def re_sub_def lower_def lower_char_def in_class_def
        alnum_def isspace_def split_def)
  have n: "normalize_text ''abc'' = ''abc''" "normalize_text ''abd'' = ''abd''"
    by (simp_all add: normalize_text_def re_sub_def lower_def lower_char_def in_class_def
        alnum_def isspace_def split_def)
  have m: "matches ''abc'' ''abd'' = 2"
    by code_simp
  have r: "py_round2 (binary64 (binary64 (binary64 (2 * binary64 (of_nat 2))
      / binary64 (of_nat (length ''abc'' + length ''abd''))) * 100)) = binary64 (6667 / 100)"
    by code_simp
  from calculate_similarity_value [of "''?!''" "''hello''"] e
  have w1: "calculate_similarity ''?!'' ''hello'' = 0" by blast
  from calculate_similarity_value [of "''abc''" "''abd''"]
  have "calculate_similarity ''abc'' ''abd''
      = py_round2 (binary64 (ratio (normalize_text ''abc'') (normalize_text ''abd'') * 100))"
    and "ratio (normalize_text ''abc'') (normalize_text ''abd'')
      = binary64 (binary64 (2 * binary64
            (of_nat (matches (normalize_text ''abc'') (normalize_text ''abd''))))
          / binary64 (of_nat (length (normalize_text ''abc'') + length (normalize_text ''abd''))))"
    by (simp_all only: n) simp_all
  then have w2: "calculate_similarity ''abc'' ''abd'' = binary64 (6667 / 100)"
    by (simp only: n m r)
  from e w1 w2 n m show ?thesis by simp
qed

section \<open>History truncation\<close>

lemma truncate_loop_take:
  "\<exists>k \<le> length es. truncate_loop es t tr = tr @ take k es
     \<and> (tr = [] \<and> es \<noteq> [] \<longrightarrow> 1 \<le> k)
     \<and> (k < length es \<longrightarrow> 3000 < t + total_words (take (Suc k) es))
     \<and> (t + total_words (take k es) \<le> 3000 \<or> (tr = [] \<and> k = 1) \<or> k = 0)"
proof (induction es arbitrary: t tr)
  case Nil
  show ?case by simp
next
  case (Cons e es)
  show ?case
  proof (cases "3000 < t + turn_words e \<and> tr \<noteq> []")
    case True
    then show ?thesis
      by (intro exI [of _ 0]) (simp add: total_words_def)
  next
    case False
    from Cons.IH [of "t + turn_words e" "tr @ [e]"]
    obtain k where k: "k \<le> length es"
      "truncate_loop es (t + turn_words e) (tr @ [e]) = (tr @ [e]) @ take k es"
      "k < length es \<longrightarrow> 3000 < (t + turn_words e) + total_words (take (Suc k) es)"
      "(t + turn_words e) + total_words (take k es) \<le> 3000 \<or> k = 0"
      by auto
    show ?thesis
    proof (cases "3000 < t + turn_words e")
      case over: True
      with False have tr: "tr = []" by simp
      have k0: "k = 0"
      proof (rule ccontr)
        assume "k \<noteq> 0"
        with k(4) over show False by simp
      qed
      show ?thesis
        using False k(1,2,3) tr k0 over
        by (intro exI [of _ "Suc 0"]) (auto simp: total_words_def)
    next
      case under: False
      show ?thesis
        using False k under
        by (intro exI [of _ "Suc k"]) (auto simp: total_words_def)
    qed
  qed
qed

lemma total_words_rev: "total_words (rev xs) = total_words xs"
  by (simp add: total_words_def rev_map [symmetric])

text \<open>
  Claim C3. For every list of turns, \<open>_truncate_history\<close> returns a suffix of the list
  (turns are removed only from the oldest end and the kept ones stay in their order); a
  non-empty list keeps at least its most recent turn; the kept turns hold at most 3000
  words unless only one turn is kept; and no more is removed than the budget forces: the
  kept turns together with the newest removed one exceed 3000 words.
\<close>

theorem truncate_history_keeps_recent_suffix:
  "suffix (truncate_history ms) ms
   \<and> (ms \<noteq> [] \<longrightarrow> truncate_history ms \<noteq> [] \<and> last (truncate_history ms) = last ms)
   \<and> (total_words (truncate_history ms) \<le> 3000 \<or> length (truncate_history ms) = 1)
   \<and> (\<forall>x. suffix (x # truncate_history ms) ms \<longrightarrow>
         3000 < total_words (x # truncate_history ms))"
proof -
  from truncate_loop_take [of "rev ms" 0 "[]"]
  obtain k where k: "k \<le> length ms"
    "truncate_loop (rev ms) 0 [] = take k (rev ms)"
    "ms \<noteq> [] \<longrightarrow> 1 \<le> k"
    "k < length ms \<longrightarrow> 3000 < total_words (take (Suc k) (rev ms))"
    "total_words (take k (rev ms)) \<le> 3000 \<or> k = 1 \<or> k = 0"
    by auto
  have r: "truncate_history ms = drop (length ms - k) ms"
    using k(2) by (simp add: truncate_history_def rev_take)
  have len: "length (truncate_history ms) = k"
    using k(1) by (simp add: r)
  have s: "suffix (truncate_history ms) ms"
    unfolding r by (rule suffix_drop)
  have ne: "ms \<noteq> [] \<longrightarrow> truncate_history ms \<noteq> [] \<and> last (truncate_history ms) = last ms"
  proof
    assume "ms \<noteq> []"
    with k(1,3) have "length ms - k < length ms" by (cases ms) auto
    then show "truncate_history ms \<noteq> [] \<and> last (truncate_history ms) = last ms"
      unfolding r by (simp add: last_drop)
  qed
  have tw: "total_words (take k (rev ms)) = total_words (truncate_history ms)"
    using total_words_rev [of "take k (rev ms)"] by (simp add: r rev_take)
  have budget: "total_words (truncate_history ms) \<le> 3000 \<or> length (truncate_history ms) = 1"
    using k(5) tw len by (auto simp: total_words_def)
  have maxi: "3000 < total_words (x # truncate_history ms)"
    if "suffix (x # truncate_history ms) ms" for x
  proof -
    from that obtain pre where pre: "ms = pre @ x # truncate_history ms"
      by (auto simp: suffix_def)
    then have lm: "length ms = Suc (length pre + k)"
      using len by (metis length_append length_Cons add_Suc_right)
    then have "k < length ms" by simp
    with k(4) have big: "3000 < total_words (take (Suc k) (rev ms))" by simp
    have "take (Suc k) (rev ms) = rev (x # truncate_history ms)"
    proof -
      have "rev ms = rev (x # truncate_history ms) @ rev pre"
        by (subst pre) simp
      moreover have "length (rev (x # truncate_history ms)) = Suc k"
        using len by simp
      ultimately show ?thesis by (metis append_eq_conv_conj)
    qed
    with big show ?thesis by (simp only: total_words_rev)
  qed
  from s ne budget maxi show ?thesis by blast
qed

theorem truncate_history_keeps_recent_suffix_witness:
  "[sample_system_turn, sample_long_turn] \<noteq> []
   \<and> truncate_history [sample_system_turn, sample_long_turn] = [sample_long_turn]
   \<and> last (truncate_history [sample_system_turn, sample_long_turn]) = sample_long_turn
   \<and> total_words (truncate_history [sample_system_turn, sample_long_turn]) \<le> 3000
   \<and> suffix (sample_system_turn # truncate_history [sample_system_turn, sample_long_turn])
         [sample_system_turn, sample_long_turn]
   \<and> 3000 < total_words
         (sample_system_turn # truncate_history [sample_system_turn, sample_long_turn])"
proof -
  have big: "turn_words sample_long_turn = 3000"
    by (simp add: turn_words_def sample_long_turn_def split_replicate)
  have sys: "turn_words sample_system_turn = 2"
    by (simp add: turn_words_def sample_system_turn_def split_def isspace_def)
  have th: "truncate_history [sample_system_turn, sample_long_turn] = [sample_long_turn]"
    by (simp add: truncate_history_def big sys)
  have suf: "suffix (sample_system_turn # truncate_history [sample_system_turn, sample_long_turn])
      [sample_system_turn, sample_long_turn]"
    by (simp add: th)
  have tot: "total_words [sample_long_turn] \<le> 3000"
    by (simp add: total_words_def big)
  from truncate_history_keeps_recent_suffix [of "[sample_system_turn, sample_long_turn]"] suf
  have "3000 < total_words
      (sample_system_turn # truncate_history [sample_system_turn, sample_long_turn])"
    by blast
  with th suf tot show ?thesis by simp
qed

section \<open>The retry loop and the reply\<close>

lemma retry_loop_step:
  assumes "attempt \<le> retries" "0 \<le> backoff"
  shows "retry_loop env retries backoff attempt last_exc slept =
     (if retryable (try_body (env attempt)) \<and> attempt < retries
      then retry_loop env retries backoff (attempt + 1)
             (case try_body (env attempt) of Inl e \<Rightarrow> Some e | Inr _ \<Rightarrow> None)
             (slept @ [sleep_length backoff attempt])
      else \<lparr>outcome = try_body (env attempt), sleeps = slept, attempts = attempt\<rparr>)"
proof -
  have "0 \<le> sleep_length backoff attempt"
    using assms(2) by (simp add: sleep_length_def)
  then have nn: "\<not> sleep_length backoff attempt < 0" by simp
  show ?thesis
    using assms(1) nn
    by (subst retry_loop.simps)
       (auto simp: retryable_def split: sum.splits exn.splits)
qed

lemma retry_loop_char:
  assumes "0 \<le> backoff" "attempt \<le> retries"
  shows "attempt \<le> attempts (retry_loop env retries backoff attempt last_exc slept)
    \<and> attempts (retry_loop env retries backoff attempt last_exc slept) \<le> retries
    \<and> sleeps (retry_loop env retries backoff attempt last_exc slept) =
        slept @ map (sleep_length backoff)
          [attempt..attempts (retry_loop env retries backoff attempt last_exc slept) - 1]
    \<and> (\<forall>k. attempt \<le> k
          \<and> k < attempts (retry_loop env retries backoff attempt last_exc slept) \<longrightarrow>
          retryable (try_body (env k)))
    \<and> outcome (retry_loop env retries backoff attempt last_exc slept) =
        try_body
          (env (attempts (retry_loop env retries backoff attempt last_exc slept)))
    \<and> (retryable (outcome (retry_loop env retries backoff attempt last_exc slept)) \<longrightarrow>
        attempts (retry_loop env retries backoff attempt last_exc slept) = retries)"
  using assms(2)
proof (induction "nat (retries - attempt)" arbitrary: attempt last_exc slept)
  case 0
  then have a: "attempt = retries" by simp
  have eq: "retry_loop env retries backoff attempt last_exc slept =
      \<lparr>outcome = try_body (env attempt), sleeps = slept, attempts = attempt\<rparr>"
    using retry_loop_step [of attempt retries backoff env last_exc slept] assms(1) a
    by simp
  show ?case
    unfolding eq using a by auto
next
  case (Suc m)
  then have lt: "attempt < retries" and m: "m = nat (retries - (attempt + 1))"
    and le: "attempt + 1 \<le> retries"
    by simp_all
  note step = retry_loop_step [of attempt retries backoff env last_exc slept]
  show ?case
  proof (cases "retryable (try_body (env attempt))")
    case False
    have eq: "retry_loop env retries backoff attempt last_exc slept =
        \<lparr>outcome = try_body (env attempt), sleeps = slept, attempts = attempt\<rparr>"
      using step False lt assms(1) by simp
    show ?thesis
      unfolding eq using False lt by auto
  next
    case True
    let ?r = "retry_loop env retries backoff (attempt + 1)
       (case try_body (env attempt) of Inl e \<Rightarrow> Some e | Inr _ \<Rightarrow> None)
       (slept @ [sleep_length backoff attempt])"
    have eq: "retry_loop env retries backoff attempt last_exc slept = ?r"
      using step True lt assms(1) by simp
    note ih = Suc.hyps(1) [OF m le,
      of "case try_body (env attempt) of Inl e \<Rightarrow> Some e | Inr _ \<Rightarrow> None"
         "slept @ [sleep_length backoff attempt]"]
    from ih have i1: "attempt + 1 \<le> attempts ?r" and i2: "attempts ?r \<le> retries"
      and i3: "sleeps ?r = (slept @ [sleep_length backoff attempt]) @
          map (sleep_length backoff) [attempt + 1..attempts ?r - 1]"
      and i4: "\<forall>k. attempt + 1 \<le> k \<and> k < attempts ?r \<longrightarrow> retryable (try_body (env k))"
      and i5: "outcome ?r = try_body (env (attempts ?r))"
      and i6: "retryable (outcome ?r) \<longrightarrow> attempts ?r = retries"
      by blast+
    have up: "[attempt..attempts ?r - 1] = attempt # [attempt + 1..attempts ?r - 1]"
      using i1 by (intro upto_rec1) simp
    have all: "\<forall>k. attempt \<le> k \<and> k < attempts ?r \<longrightarrow> retryable (try_body (env k))"
    proof (intro allI impI)
      fix k assume k: "attempt \<le> k \<and> k < attempts ?r"
      show "retryable (try_body (env k))"
      proof (cases "k = attempt")
        case True
        with \<open>retryable (try_body (env attempt))\<close> show ?thesis by simp
      next
        case False
        with k i4 show ?thesis by simp
      qed
    qed
    have s: "sleeps ?r = slept @ map (sleep_length backoff) [attempt..attempts ?r - 1]"
      by (simp only: i3 up) simp
    have a1: "attempt \<le> attempts ?r" using i1 by simp
    show ?thesis
      unfolding eq using a1 i2 s all i5 i6 by blast
  qed
qed

lemma call_gemini_api_char:
  assumes "0 \<le> backoff" "1 \<le> retries"
  shows "1 \<le> attempts (call_gemini_api env retries backoff)
    \<and> attempts (call_gemini_api env retries backoff) \<le> retries
    \<and> sleeps (call_gemini_api env retries backoff) =
        map (sleep_length backoff) [1..attempts (call_gemini_api env retries backoff) - 1]
    \<and> (\<forall>k. 1 \<le> k \<and> k < attempts (call_gemini_api env retries backoff) \<longrightarrow>
          retryable (try_body (env k)))
    \<and> outcome (call_gemini_api env retries backoff) =
        try_body (env (attempts (call_gemini_api env retries backoff)))
    \<and> (retryable (outcome (call_gemini_api env retries backoff)) \<longrightarrow>
        attempts (call_gemini_api env retries backoff) = retries)"
  using retry_loop_char [OF assms, of env None "[]"]
  unfolding call_gemini_api_def append_Nil .

lemma call_gemini_api_stops_at:
  assumes "0 \<le> backoff" "1 \<le> n" "n \<le> retries"
    and "\<forall>k. 1 \<le> k \<and> k < n \<longrightarrow> retryable (try_body (env k))"
    and "\<not> retryable (try_body (env n)) \<or> n = retries"
  shows "call_gemini_api env retries backoff =
     \<lparr>outcome = try_body (env n), sleeps = map (sleep_length backoff) [1..n - 1], attempts = n\<rparr>"
proof -
  let ?r = "call_gemini_api env retries backoff"
  have r: "1 \<le> retries" using assms(2,3) by simp
  note c = call_gemini_api_char [OF assms(1) r, of env]
  from c have c4: "\<forall>k. 1 \<le> k \<and> k < attempts ?r \<longrightarrow> retryable (try_body (env k))"
    and c5: "outcome ?r = try_body (env (attempts ?r))"
    and c6: "retryable (outcome ?r) \<longrightarrow> attempts ?r = retries"
    and c3: "sleeps ?r = map (sleep_length backoff) [1..attempts ?r - 1]"
    and c1: "1 \<le> attempts ?r" and c2: "attempts ?r \<le> retries"
    by blast+
  have "attempts ?r = n"
  proof (rule ccontr)
    assume ne: "attempts ?r \<noteq> n"
    show False
    proof (cases "attempts ?r < n")
      case True
      with c1 assms(4) have "retryable (try_body (env (attempts ?r)))" by simp
      with c5 c6 have "attempts ?r = retries" by simp
      with True assms(3) show False by simp
    next
      case False
      with ne have gt: "n < attempts ?r" by simp
      with c4 assms(2) have "retryable (try_body (env n))" by simp
      with assms(5) have "n = retries" by simp
      with gt c2 show False by simp
    qed
  qed
  with c5 c3 show ?thesis by (cases ?r) simp
qed

text \<open>
  Claim C4. With a non-negative backoff and at least one attempt allowed, the call makes
  between 1 and \<open>retries\<close> attempts (3 by default); every attempt before the last one made
  failed with an HTTP 503 or with an exception that is not an \<open>HTTPError\<close>, and was
  followed by a sleep of \<open>backoff * 2 ^ (attempt - 1)\<close>; the call returns or raises what
  its last attempt returned or raised, and a failure of that kind ends the call only on
  attempt \<open>retries\<close>. Two HTTP 503 responses followed by a success, with 3 attempts
  allowed, return the success after the two sleeps \<open>backoff\<close> and \<open>2 * backoff\<close>.
\<close>

theorem call_gemini_api_retry_policy:
  assumes "0 \<le> backoff" "1 \<le> retries"
  shows "1 \<le> attempts (call_gemini_api env retries backoff)
    \<and> attempts (call_gemini_api env retries backoff) \<le> retries
    \<and> sleeps (call_gemini_api env retries backoff) =
        map (\<lambda>attempt. backoff * 2 ^ nat (attempt - 1))
          [1..attempts (call_gemini_api env retries backoff) - 1]
    \<and> (\<forall>k. 1 \<le> k \<and> k < attempts (call_gemini_api env retries backoff) \<longrightarrow>
          retryable (try_body (env k)))
    \<and> outcome (call_gemini_api env retries backoff) =
        try_body (env (attempts (call_gemini_api env retries backoff)))
    \<and> (retryable (outcome (call_gemini_api env retries backoff)) \<longrightarrow>
        attempts (call_gemini_api env retries backoff) = retries)
    \<and> (retries = 3 \<and> env 1 = Raised (HTTPError (Some 503))
          \<and> env 2 = Raised (HTTPError (Some 503)) \<and> try_body (env 3) = Inr text \<longrightarrow>
        call_gemini_api env retries backoff =
          \<lparr>outcome = Inr text, sleeps = [backoff, 2 * backoff], attempts = 3\<rparr>)"
proof -
  have sl: "sleep_length backoff = (\<lambda>attempt. backoff * 2 ^ nat (attempt - 1))"
    by (rule ext) (simp add: sleep_length_def)
  have particular: "call_gemini_api env retries backoff =
      \<lparr>outcome = Inr text, sleeps = [backoff, 2 * backoff], attempts = 3\<rparr>"
    if h: "retries = 3 \<and> env 1 = Raised (HTTPError (Some 503))
      \<and> env 2 = Raised (HTTPError (Some 503)) \<and> try_body (env 3) = Inr text"
  proof -
    have before: "\<forall>k. 1 \<le> k \<and> k < 3 \<longrightarrow> retryable (try_body (env k))"
    proof (intro allI impI)
      fix k :: int assume "1 \<le> k \<and> k < 3"
      then have "k = 1 \<or> k = 2" by auto
      with h show "retryable (try_body (env k))"
        by (auto simp: retryable_def try_body_def)
    qed
    have last: "\<not> retryable (try_body (env 3)) \<or> (3::int) = retries"
      using h by simp
    have u: "[1..(2::int)] = [1, 2]"
      by (simp add: upto_rec1)
    from call_gemini_api_stops_at [OF assms(1) _ _ before last] h
    show ?thesis by (simp add: u sleep_length_def)
  qed
  from call_gemini_api_char [OF assms, of env] particular
  show ?thesis unfolding sl by blast
qed

theorem call_gemini_api_retry_policy_witness:
  "(0::rat) \<le> 1 \<and> (1::int) \<le> 3
   \<and> env_503_503_ok 1 = Raised (HTTPError (Some 503))
   \<and> env_503_503_ok 2 = Raised (HTTPError (Some 503))
   \<and> try_body (env_503_503_ok 3) = Inr (Value (JStr ''Hi there''))
   \<and> call_gemini_api env_503_503_ok 3 1 =
       \<lparr>outcome = Inr (Value (JStr ''Hi there'')), sleeps = [1, 2], attempts = 3\<rparr>
   \<and> retryable (outcome (call_gemini_api env_all_503 3 1))
   \<and> attempts (call_gemini_api env_all_503 3 1) = 3
   \<and> outcome (call_gemini_api env_all_503 3 1) = Inl (HTTPError (Some 503))
   \<and> sleeps (call_gemini_api env_all_503 3 1) = [1, 2]"
proof -
  have e: "env_503_503_ok 1 = Raised (HTTPError (Some 503))"
    "env_503_503_ok 2 = Raised (HTTPError (Some 503))"
    by (simp_all add: env_503_503_ok_def)
  have t: "try_body (env_503_503_ok 3) = Inr (Value (JStr ''Hi there''))"
    by (simp add: env_503_503_ok_def try_body_def extract_reply_def good_reply_def dict_get_def
        parts_text_def)
  have b: "(0::rat) \<le> 1" and r: "(1::int) \<le> 3" by simp_all
  have ok: "call_gemini_api env_503_503_ok 3 1 =
       \<lparr>outcome = Inr (Value (JStr ''Hi there'')), sleeps = [1, 2], attempts = 3\<rparr>"
    using call_gemini_api_retry_policy [OF b r, of env_503_503_ok "Value (JStr ''Hi there'')"] e t
    by simp
  note p = call_gemini_api_retry_policy [OF b r, of env_all_503 "Value (JStr ''Hi there'')"]
  have o: "outcome (call_gemini_api env_all_503 3 1) = Inl (HTTPError (Some 503))"
    using p by (simp add: env_all_503_def try_body_def)
  then have ry: "retryable (outcome (call_gemini_api env_all_503 3 1))"
    by (simp add: retryable_def)
  with p have a: "attempts (call_gemini_api env_all_503 3 1) = 3" by blast
  have u: "[1..(2::int)] = [1, 2]"
    by (simp add: upto_rec1)
  have s: "sleeps (call_gemini_api env_all_503 3 1) = [1, 2]"
    using p by (simp add: a u)
  from e t ok o ry a s show ?thesis by simp
qed

text \<open>
  Claim C10. When the attempts before attempt \<open>n\<close> failed in a way the loop retries and
  attempt \<open>n\<close> raises an \<open>HTTPError\<close> whose status is not 503, the call raises that
  error from attempt \<open>n\<close>: the only sleeps are those that followed the earlier attempts,
  and no later attempt is made, however many are left.
\<close>

theorem call_gemini_api_other_http_error:
  assumes "0 \<le> backoff" "1 \<le> n" "n \<le> retries"
    and "\<forall>k. 1 \<le> k \<and> k < n \<longrightarrow> retryable (try_body (env k))"
    and "env n = Raised (HTTPError status)" "status \<noteq> Some 503"
  shows "call_gemini_api env retries backoff =
     \<lparr>outcome = Inl (HTTPError status),
      sleeps = map (\<lambda>attempt. backoff * 2 ^ nat (attempt - 1)) [1..n - 1],
      attempts = n\<rparr>"
proof -
  have sl: "sleep_length backoff = (\<lambda>attempt. backoff * 2 ^ nat (attempt - 1))"
    by (rule ext) (simp add: sleep_length_def)
  have t: "try_body (env n) = Inl (HTTPError status)"
    using assms(5) by (simp add: try_body_def)
  then have "\<not> retryable (try_body (env n)) \<or> n = retries"
    using assms(6) by (simp add: retryable_def)
  from call_gemini_api_stops_at [OF assms(1-4) this] t
  show ?thesis by (simp add: sl)
qed

theorem call_gemini_api_other_http_error_witness:
  "(0::rat) \<le> 1 \<and> (1::int) \<le> 2 \<and> (2::int) \<le> 3
   \<and> retryable (try_body (env_404 1))
   \<and> env_404 2 = Raised (HTTPError (Some 404)) \<and> Some (404::int) \<noteq> Some 503
   \<and> call_gemini_api env_404 3 1 =
       \<lparr>outcome = Inl (HTTPError (Some 404)), sleeps = [1], attempts = 2\<rparr>"
proof -
  have b: "(0::rat) \<le> 1" and n: "(1::int) \<le> 2" and r: "(2::int) \<le> 3" by simp_all
  have r1: "retryable (try_body (env_404 1))"
    by (simp add: env_404_def try_body_def retryable_def)
  have before: "\<forall>k. 1 \<le> k \<and> k < 2 \<longrightarrow> retryable (try_body (env_404 k))"
  proof (intro allI impI)
    fix k :: int assume "1 \<le> k \<and> k < 2"
    then have "k = 1" by simp
    with r1 show "retryable (try_body (env_404 k))" by simp
  qed
  have e: "env_404 2 = Raised (HTTPError (Some 404))"
    by (simp add: env_404_def)
  have s: "Some (404::int) \<noteq> Some 503" by simp
  have u: "[1..(1::int)] = [1]"
    by (simp add: upto_rec1)
  from call_gemini_api_other_http_error [OF b n r before e s]
  have "call_gemini_api env_404 3 1 =
       \<lparr>outcome = Inl (HTTPError (Some 404)), sleeps = [1], attempts = 2\<rparr>"
    by (simp add: u)
  with r1 e show ?thesis by simp
qed

lemma part_texts_ok:
  "list_all text_part parts \<Longrightarrow>
   part_texts parts = Some (map (\<lambda>p. JStr (text_of_part p)) parts)"
proof (induction parts)
  case Nil
  show ?case by simp
next
  case (Cons p ps)
  then show ?case
    by (cases p) (auto simp: text_part_def text_of_part_def split: option.splits json.splits)
qed

lemma join_empty_strs: "join_empty (map (\<lambda>p. JStr (f p)) ps) = Some (concat (map f ps))"
  by (induction ps) simp_all

lemma parts_text_ok:
  "list_all text_part parts \<Longrightarrow> parts_text parts = Inr (concat (map text_of_part parts))"
  by (simp add: parts_text_def part_texts_ok join_empty_strs)

lemma extract_reply_no_candidates:
  "no_candidates d \<Longrightarrow>
   extract_reply (JObj d) = Inl (RuntimeError ''No response from Gemini API'')"
  by (auto simp: extract_reply_def no_candidates_def split: option.splits)

lemma extract_reply_first_candidate:
  assumes "dict_get d ''candidates'' = Some (JArr (JObj c # rest))"
  shows "extract_reply (JObj d) =
     (case dict_get c ''content'' of
        Some (JObj content) \<Rightarrow>
          (case dict_get content ''text'' of
             Some t \<Rightarrow> Inr (Value t)
           | None \<Rightarrow>
               (case dict_get content ''parts'' of
                  None \<Rightarrow> Inr (Value (JStr []))
                | Some (JArr parts) \<Rightarrow>
                    (case parts_text parts of
                       Inl e \<Rightarrow> Inl e | Inr t \<Rightarrow> Inr (Value (JStr t)))
                | Some (JStr s) \<Rightarrow>
                    if s = [] then Inr (Value (JStr [])) else Inl AttributeError
                | Some (JObj kvs) \<Rightarrow>
                    if kvs = [] then Inr (Value (JStr [])) else Inl AttributeError
                | Some _ \<Rightarrow> Inl TypeError))
      | Some other \<Rightarrow> Inr (Str_of other)
      | None \<Rightarrow> Inr (Str_of JNull))"
  using assms by (simp add: extract_reply_def)

lemma call_gemini_api_returns_at:
  assumes "0 \<le> backoff" "1 \<le> n" "n \<le> retries"
    and "\<forall>k. 1 \<le> k \<and> k < n \<longrightarrow> retryable (try_body (env k))"
    and "try_body (env n) = Inr text"
  shows "outcome (call_gemini_api env retries backoff) = Inr text"
proof -
  have "\<not> retryable (try_body (env n)) \<or> n = retries"
    using assms(5) by (simp add: retryable_def)
  from call_gemini_api_stops_at [OF assms(1-4) this] assms(5)
  show ?thesis by simp
qed

lemma call_gemini_api_continues:
  assumes "0 \<le> backoff" "1 \<le> n" "n < retries"
    and "\<forall>k. 1 \<le> k \<and> k < n \<longrightarrow> retryable (try_body (env k))"
    and "retryable (try_body (env n))"
  shows "n < attempts (call_gemini_api env retries backoff)
    \<and> sleep_length backoff n \<in> set (sleeps (call_gemini_api env retries backoff))"
proof -
  let ?r = "call_gemini_api env retries backoff"
  have r: "1 \<le> retries" using assms(2,3) by simp
  note c = call_gemini_api_char [OF assms(1) r, of env]
  from c have c5: "outcome ?r = try_body (env (attempts ?r))"
    and c6: "retryable (outcome ?r) \<longrightarrow> attempts ?r = retries"
    and c3: "sleeps ?r = map (sleep_length backoff) [1..attempts ?r - 1]"
    and c1: "1 \<le> attempts ?r"
    by blast+
  have gt: "n < attempts ?r"
  proof (rule ccontr)
    assume "\<not> n < attempts ?r"
    then have le: "attempts ?r \<le> n" by simp
    have "retryable (try_body (env (attempts ?r)))"
    proof (cases "attempts ?r = n")
      case True
      with assms(5) show ?thesis by simp
    next
      case False
      with le c1 assms(4) show ?thesis by simp
    qed
    with c5 c6 have "attempts ?r = retries" by simp
    with le assms(3) show False by simp
  qed
  then have "n \<in> set [1..attempts ?r - 1]"
    using assms(2) by simp
  then have "sleep_length backoff n \<in> set (sleeps ?r)"
    unfolding c3 by (simp only: set_map) (rule imageI)
  with gt show ?thesis by simp
qed

text \<open>
  The claim C8 as written fails: a response without candidates on an attempt before the
  last raises no error out of the call; the \<open>RuntimeError\<close> is caught inside the loop and
  retried after a sleep, and the call returns the reply of the next attempt.
\<close>

theorem call_gemini_api_reply_counterexample:
  "env_empty_then_ok 1 = Parsed (JObj [(''candidates'', JArr [])])
   \<and> no_candidates [(''candidates'', JArr [])]
   \<and> call_gemini_api env_empty_then_ok 3 1 =
       \<lparr>outcome = Inr (Value (JStr ''Hi there'')), sleeps = [1], attempts = 2\<rparr>"
  by (simp add: call_gemini_api_def retry_loop.simps try_body_def extract_reply_def
      env_empty_then_ok_def good_reply_def dict_get_def no_candidates_def parts_text_def
      sleep_length_def)

text \<open>
  Claim C8, amended. Let attempt \<open>n\<close> be reached and its response parse to a dictionary.
  If the response has no candidates, the attempt raises a \<open>RuntimeError\<close>, which the call
  raises when \<open>n\<close> is the last attempt allowed, and which is followed by a sleep and a
  further attempt otherwise. If the candidates are a list whose first element is a
  dictionary, the call returns from that candidate: the direct text field of its content
  when the content is a dictionary with one; else the concatenation of the texts of the
  parts of the content, when these are dictionaries whose text is a string or missing;
  and \<open>str\<close> of the content when it is not a dictionary.
\<close>

theorem call_gemini_api_reply:
  assumes "0 \<le> backoff" "1 \<le> n" "n \<le> retries"
    and "\<forall>k. 1 \<le> k \<and> k < n \<longrightarrow> retryable (try_body (env k))"
    and "env n = Parsed (JObj d)"
  shows "(no_candidates d \<longrightarrow>
        try_body (env n) = Inl (RuntimeError ''No response from Gemini API''))
    \<and> (no_candidates d \<and> n = retries \<longrightarrow>
        call_gemini_api env retries backoff =
          \<lparr>outcome = Inl (RuntimeError ''No response from Gemini API''),
           sleeps = map (sleep_length backoff) [1..n - 1], attempts = n\<rparr>)
    \<and> (no_candidates d \<and> n < retries \<longrightarrow>
        n < attempts (call_gemini_api env retries backoff)
        \<and> sleep_length backoff n \<in> set (sleeps (call_gemini_api env retries backoff)))
    \<and> (dict_get d ''candidates'' = Some (JArr (JObj c # rest)) \<longrightarrow>
        (\<forall>content t. dict_get c ''content'' = Some (JObj content)
            \<and> dict_get content ''text'' = Some t \<longrightarrow>
            outcome (call_gemini_api env retries backoff) = Inr (Value t))
        \<and> (\<forall>content parts. dict_get c ''content'' = Some (JObj content)
            \<and> dict_get content ''text'' = None
            \<and> dict_get content ''parts'' = Some (JArr parts) \<and> list_all text_part parts \<longrightarrow>
            outcome (call_gemini_api env retries backoff) =
              Inr (Value (JStr (concat (map text_of_part parts)))))
        \<and> (\<forall>v. dict_get c ''content'' = Some v \<and> \<not> is_dict v \<longrightarrow>
            outcome (call_gemini_api env retries backoff) = Inr (Str_of v))
        \<and> (dict_get c ''content'' = None \<longrightarrow>
            outcome (call_gemini_api env retries backoff) = Inr (Str_of JNull)))"
proof -
  have tb: "try_body (env n) = extract_reply (JObj d)"
    using assms(5) by (simp add: try_body_def)
  have none: "try_body (env n) = Inl (RuntimeError ''No response from Gemini API'')"
    if "no_candidates d"
    using that by (simp add: tb extract_reply_no_candidates)
  have last: "call_gemini_api env retries backoff =
      \<lparr>outcome = Inl (RuntimeError ''No response from Gemini API''),
       sleeps = map (sleep_length backoff) [1..n - 1], attempts = n\<rparr>"
    if "no_candidates d \<and> n = retries"
  proof -
    from that have "\<not> retryable (try_body (env n)) \<or> n = retries" by simp
    from call_gemini_api_stops_at [OF assms(1-4) this] none that
    show ?thesis by simp
  qed
  have earlier: "n < attempts (call_gemini_api env retries backoff)
      \<and> sleep_length backoff n \<in> set (sleeps (call_gemini_api env retries backoff))"
    if "no_candidates d \<and> n < retries"
  proof -
    from that none have "retryable (try_body (env n))"
      by (simp add: retryable_def)
    with that show ?thesis
      by (intro call_gemini_api_continues assms) simp_all
  qed
  note ret = call_gemini_api_returns_at [OF assms(1-4)]
  have first: "(\<forall>content t. dict_get c ''content'' = Some (JObj content)
            \<and> dict_get content ''text'' = Some t \<longrightarrow>
            outcome (call_gemini_api env retries backoff) = Inr (Value t))
        \<and> (\<forall>content parts. dict_get c ''content'' = Some (JObj content)
            \<and> dict_get content ''text'' = None
            \<and> dict_get content ''parts'' = Some (JArr parts) \<and> list_all text_part parts \<longrightarrow>
            outcome (call_gemini_api env retries backoff) =
              Inr (Value (JStr (concat (map text_of_part parts)))))
        \<and> (\<forall>v. dict_get c ''content'' = Some v \<and> \<not> is_dict v \<longrightarrow>
            outcome (call_gemini_api env retries backoff) = Inr (Str_of v))
        \<and> (dict_get c ''content'' = None \<longrightarrow>
            outcome (call_gemini_api env retries backoff) = Inr (Str_of JNull))"
    if cand: "dict_get d ''candidates'' = Some (JArr (JObj c # rest))"
  proof -
    note e = extract_reply_first_candidate [OF cand]
    have a: "outcome (call_gemini_api env retries backoff) = Inr (Value t)"
      if "dict_get c ''content'' = Some (JObj content) \<and> dict_get content ''text'' = Some t"
      for content t
      using that by (intro ret) (simp add: tb e)
    have b: "outcome (call_gemini_api env retries backoff) =
        Inr (Value (JStr (concat (map text_of_part parts))))"
      if "dict_get c ''content'' = Some (JObj content) \<and> dict_get content ''text'' = None
        \<and> dict_get content ''parts'' = Some (JArr parts) \<and> list_all text_part parts"
      for content parts
      using that by (intro ret) (simp add: tb e parts_text_ok)
    have c: "outcome (call_gemini_api env retries backoff) = Inr (Str_of v)"
      if "dict_get c ''content'' = Some v \<and> \<not> is_dict v" for v
      using that by (intro ret) (cases v; simp add: tb e is_dict_def)
    have d: "outcome (call_gemini_api env retries backoff) = Inr (Str_of JNull)"
      if "dict_get c ''content'' = None"
      using that by (intro ret) (simp add: tb e)
    from a b c d show ?thesis by blast
  qed
  from none last earlier first show ?thesis by blast
qed

theorem call_gemini_api_reply_witness:
  "no_candidates [(''candidates'', JArr [])]
   \<and> call_gemini_api env_empty 1 1 =
       \<lparr>outcome = Inl (RuntimeError ''No response from Gemini API''), sleeps = [], attempts = 1\<rparr>
   \<and> 1 < attempts (call_gemini_api env_empty 3 1)
   \<and> sleep_length 1 1 \<in> set (sleeps (call_gemini_api env_empty 3 1))
   \<and> outcome (call_gemini_api env_direct_text 3 1) = Inr (Value (JStr ''Hello''))
   \<and> outcome (call_gemini_api env_503_503_ok 3 1) = Inr (Value (JStr ''Hi there''))
   \<and> \<not> is_dict (JStr ''Hello'')
   \<and> outcome (call_gemini_api env_plain_content 3 1) = Inr (Str_of (JStr ''Hello''))
   \<and> outcome (call_gemini_api env_no_content 3 1) = Inr (Str_of JNull)"
proof -
  have b: "(0::rat) \<le> 1" and one: "(1::int) \<le> 1" and r: "(1::int) \<le> 3"
    and three: "(3::int) \<le> 3" and three': "(1::int) \<le> 3"
    by simp_all
  have vac: "\<forall>k. 1 \<le> k \<and> k < (1::int) \<longrightarrow> retryable (try_body (env k))" for env
    by auto
  have nc: "no_candidates [(''candidates'', JArr [])]"
    by (simp add: no_candidates_def dict_get_def)
  have e: "env_empty 1 = Parsed (JObj [(''candidates'', JArr [])])"
    by (simp add: env_empty_def)
  have up: "[1..(0::int)] = []" by simp
  from call_gemini_api_reply [OF b one one vac [of env_empty] e] nc
  have w1: "call_gemini_api env_empty 1 1 =
       \<lparr>outcome = Inl (RuntimeError ''No response from Gemini API''), sleeps = [], attempts = 1\<rparr>"
    by simp
  from call_gemini_api_reply [OF b one r vac [of env_empty] e] nc
  have w2: "1 < attempts (call_gemini_api env_empty 3 1)
      \<and> sleep_length 1 1 \<in> set (sleeps (call_gemini_api env_empty 3 1))"
    by simp
  have d: "env_direct_text 1 = Parsed (JObj [(''candidates'',
       JArr [JObj [(''content'', JObj [(''text'', JStr ''Hello'')])]])])"
    by (simp add: env_direct_text_def)
  have d1: "dict_get [(''candidates'', JArr [JObj [(''content'', JObj [(''text'', JStr ''Hello'')])]])]
      ''candidates'' = Some (JArr (JObj [(''content'', JObj [(''text'', JStr ''Hello'')])] # []))"
    by (simp add: dict_get_def)
  have d2: "dict_get [(''content'', JObj [(''text'', JStr ''Hello'')])] ''content''
      = Some (JObj [(''text'', JStr ''Hello'')])
      \<and> dict_get [(''text'', JStr ''Hello'')] ''text'' = Some (JStr ''Hello'')"
    by (simp add: dict_get_def)
  from call_gemini_api_reply [OF b one r vac [of env_direct_text] d] d1 d2
  have w3: "outcome (call_gemini_api env_direct_text 3 1) = Inr (Value (JStr ''Hello''))"
    by blast
  have before: "\<forall>k. 1 \<le> k \<and> k < (3::int) \<longrightarrow> retryable (try_body (env_503_503_ok k))"
  proof (intro allI impI)
    fix k :: int assume "1 \<le> k \<and> k < 3"
    then have "k = 1 \<or> k = 2" by auto
    then show "retryable (try_body (env_503_503_ok k))"
      by (auto simp: retryable_def try_body_def env_503_503_ok_def)
  qed
  have g: "env_503_503_ok 3 = Parsed (JObj [(''candidates'',
     JArr [JObj [(''content'',
       JObj [(''parts'', JArr [JObj [(''text'', JStr ''Hi '')], JObj [(''text'', JStr ''there'')]])])]])])"
    by (simp add: env_503_503_ok_def good_reply_def)
  have g1: "dict_get [(''candidates'',
     JArr [JObj [(''content'',
       JObj [(''parts'', JArr [JObj [(''text'', JStr ''Hi '')], JObj [(''text'', JStr ''there'')]])])]])]
     ''candidates'' = Some (JArr (JObj [(''content'',
       JObj [(''parts'', JArr [JObj [(''text'', JStr ''Hi '')], JObj [(''text'', JStr ''there'')]])])] # []))"
    by (simp add: dict_get_def)
  have g2: "dict_get [(''content'',
       JObj [(''parts'', JArr [JObj [(''text'', JStr ''Hi '')], JObj [(''text'', JStr ''there'')]])])]
       ''content''
      = Some (JObj [(''parts'', JArr [JObj [(''text'', JStr ''Hi '')], JObj [(''text'', JStr ''there'')]])])
    \<and> dict_get [(''parts'', JArr [JObj [(''text'', JStr ''Hi '')], JObj [(''text'', JStr ''there'')]])]
       ''text'' = None
    \<and> dict_get [(''parts'', JArr [JObj [(''text'', JStr ''Hi '')], JObj [(''text'', JStr ''there'')]])]
       ''parts'' = Some (JArr [JObj [(''text'', JStr ''Hi '')], JObj [(''text'', JStr ''there'')]])
    \<and> list_all text_part [JObj [(''text'', JStr ''Hi '')], JObj [(''text'', JStr ''there'')]]"
    by (simp add: dict_get_def text_part_def)
  have g3: "concat (map text_of_part [JObj [(''text'', JStr ''Hi '')], JObj [(''text'', JStr ''there'')]])
      = ''Hi there''"
    by (simp add: text_of_part_def dict_get_def)
  from call_gemini_api_reply [OF b three' three before g] g1 g2
  have "outcome (call_gemini_api env_503_503_ok 3 1) = Inr (Value (JStr
      (concat (map text_of_part [JObj [(''text'', JStr ''Hi '')], JObj [(''text'', JStr ''there'')]]))))"
    by blast
  then have w4: "outcome (call_gemini_api env_503_503_ok 3 1) = Inr (Value (JStr ''Hi there''))"
    by (simp only: g3)
  have p: "env_plain_content 1 = Parsed (JObj [(''candidates'',
     JArr [JObj [(''content'', JStr ''Hello'')]])])"
    by (simp add: env_plain_content_def)
  have p1: "dict_get [(''candidates'', JArr [JObj [(''content'', JStr ''Hello'')]])] ''candidates''
      = Some (JArr (JObj [(''content'', JStr ''Hello'')] # []))"
    by (simp add: dict_get_def)
  have p2: "dict_get [(''content'', JStr ''Hello'')] ''content'' = Some (JStr ''Hello'')
      \<and> \<not> is_dict (JStr ''Hello'')"
    by (simp add: dict_get_def is_dict_def)
  from call_gemini_api_reply [OF b one r vac [of env_plain_content] p] p1 p2
  have w5: "outcome (call_gemini_api env_plain_content 3 1) = Inr (Str_of (JStr ''Hello''))"
    by blast
  have q: "env_no_content 1 = Parsed (JObj [(''candidates'',
     JArr [JObj [(''finishReason'', JStr ''STOP'')]])])"
    by (simp add: env_no_content_def)
  have q1: "dict_get [(''candidates'', JArr [JObj [(''finishReason'', JStr ''STOP'')]])]
      ''candidates'' = Some (JArr (JObj [(''finishReason'', JStr ''STOP'')] # []))"
    by (simp add: dict_get_def)
  have q2: "dict_get [(''finishReason'', JStr ''STOP'')] ''content'' = None"
    by (simp add: dict_get_def)
  from call_gemini_api_reply [OF b one r vac [of env_no_content] q] q1 q2
  have w6: "outcome (call_gemini_api env_no_content 3 1) = Inr (Str_of JNull)"
    by blast
  from nc w1 w2 w3 w4 w5 w6 p2 show ?thesis by blast
qed

section \<open>Reply truncation\<close>

text \<open>
  Claim C5. A reply of more than 150 words is handed to the text-to-speech engine as its
  first 150 words, joined by single spaces, followed by the marker \<open>...\<close>: splitting
  that text again gives exactly 150 words, the first 149 words of the reply and the 150th
  with the marker attached. A reply of at most 150 words is handed over unchanged.
\<close>

theorem synthesize_conversational_truncates:
  "(150 < length (split t) \<longrightarrow>
      synthesize_conversational t = join '' '' (take 150 (split t)) @ ''...''
      \<and> split (synthesize_conversational t) = take 149 (split t) @ [(split t ! 149) @ ''...'']
      \<and> length (split (synthesize_conversational t)) = 150)
   \<and> (length (split t) \<le> 150 \<longrightarrow> synthesize_conversational t = t)"
proof (intro conjI impI)
  assume long: "150 < length (split t)"
  show eq: "synthesize_conversational t = join '' '' (take 150 (split t)) @ ''...''"
    using long by (simp add: synthesize_conversational_def)
  have words: "list_all is_word (take 150 (split t))"
    using split_words [of t] by (auto simp: list_all_iff dest: in_set_takeD)
  have ne: "take 150 (split t) \<noteq> []"
    using long by auto
  have dots: "list_all (\<lambda>c. \<not> isspace c) ''...''"
    by (simp add: isspace_def)
  have bl: "butlast (take 150 (split t)) = take 149 (split t)"
    using long by (simp add: butlast_take)
  have la: "last (take 150 (split t)) = split t ! 149"
    using long ne by (simp add: last_conv_nth)
  show sp: "split (synthesize_conversational t) = take 149 (split t) @ [(split t ! 149) @ ''...'']"
    using split_join_suffix [OF words ne dots] by (simp only: eq bl la)
  show "length (split (synthesize_conversational t)) = 150"
    using long by (simp add: sp)
next
  assume "length (split t) \<le> 150"
  then show "synthesize_conversational t = t"
    by (simp add: synthesize_conversational_def)
qed

theorem synthesize_conversational_truncates_witness:
  "150 < length (split sample_long_reply)
   \<and> split (synthesize_conversational sample_long_reply) = replicate 149 ''a'' @ [''a...'']
   \<and> length (split (synthesize_conversational sample_long_reply)) = 150
   \<and> length (split ''hello world'') \<le> 150
   \<and> synthesize_conversational ''hello world'' = ''hello world''"
proof -
  have sp: "split sample_long_reply = replicate 200 ''a''"
    by (simp add: sample_long_reply_def split_replicate)
  have long: "150 < length (split sample_long_reply)"
    by (simp add: sp)
  have short: "length (split ''hello world'') \<le> 150"
    by (simp add: split_def isspace_def)
  have tk: "take 149 (replicate 200 ''a'') = replicate 149 ''a''"
    by simp
  from synthesize_conversational_truncates [of sample_long_reply] long
  have "split (synthesize_conversational sample_long_reply) =
      take 149 (split sample_long_reply) @ [(split sample_long_reply ! 149) @ ''...'']"
    and "length (split (synthesize_conversational sample_long_reply)) = 150"
    by blast+
  moreover from synthesize_conversational_truncates [of "''hello world''"] short
  have "synthesize_conversational ''hello world'' = ''hello world''"
    by blast
  ultimately show ?thesis
    using long short by (simp add: sp tk)
qed

section \<open>Audio cleanup\<close>

lemma basename_eq_iff: "basename p = p \<longleftrightarrow> CHR ''/'' \<notin> set p"
proof -
  have "basename p = p \<longleftrightarrow> takeWhile (\<lambda>c. c \<noteq> CHR ''/'') (rev p) = rev p"
    unfolding basename_def by (metis rev_rev_ident)
  also have "\<dots> \<longleftrightarrow> CHR ''/'' \<notin> set p"
    by (auto simp: takeWhile_eq_all_conv)
  finally show ?thesis .
qed

lemma in_set_dropWhile: "x \<in> set xs \<Longrightarrow> \<not> P x \<Longrightarrow> x \<in> set (dropWhile P xs)"
  by (induction xs) auto

lemma in_set_strip: "c \<in> set s \<Longrightarrow> \<not> isspace c \<Longrightarrow> c \<in> set (strip s)"
  by (simp add: strip_def in_set_dropWhile)

lemma strip_Nil: "strip [] = []"
  by (simp add: strip_def)

lemma slash_not_space: "\<not> isspace CHR ''/''"
  by (simp add: isspace_def)

text \<open>
  The claim C7 as written fails: a name with trailing whitespace does not end in
  \<open>.mp3\<close>, yet the handler strips it first, accepts it and deletes the file.
\<close>

theorem cleanup_audio_rejects_counterexample:
  "\<not> endswith ''a.mp3 '' ''.mp3''
   \<and> cleanup_audio (Some (JObj [(''filename'', JStr ''a.mp3 '')])) {''a.mp3''}
       = ((200, ''status'', ''ok''), {})"
  by (simp add: cleanup_audio_def endswith_def basename_def strip_def isspace_def dict_get_def)

text \<open>
  Claim C7, amended. A request whose file name contains a path component (its basename
  differs from the name), or whose file name with leading and trailing whitespace removed
  does not end in \<open>.mp3\<close>, is answered with HTTP 400 and no file is deleted. The
  name \<open>../../etc/passwd.mp3\<close> is such a request.
\<close>

theorem cleanup_audio_rejects:
  assumes "dict_get payload ''filename'' = Some (JStr raw)"
    and "basename raw \<noteq> raw \<or> \<not> endswith (strip raw) ''.mp3''"
  shows "fst (fst (cleanup_audio (Some (JObj payload)) files)) = 400
    \<and> snd (cleanup_audio (Some (JObj payload)) files) = files"
proof -
  have ne: "payload \<noteq> []"
    using assms(1) by (auto simp: dict_get_def)
  have bad: "strip raw \<noteq> [] \<Longrightarrow>
      basename (strip raw) \<noteq> strip raw \<or> \<not> endswith (basename (strip raw)) ''.mp3''"
  proof (cases "basename raw \<noteq> raw")
    case True
    then have "CHR ''/'' \<in> set (strip raw)"
      by (simp add: basename_eq_iff in_set_strip slash_not_space)
    then show ?thesis by (simp add: basename_eq_iff)
  next
    case False
    with assms(2) have "\<not> endswith (strip raw) ''.mp3''" by simp
    then show ?thesis by (cases "basename (strip raw) = strip raw") simp_all
  qed
  show ?thesis
  proof (cases "strip raw = []")
    case True
    then show ?thesis
      using ne assms(1) by (simp add: cleanup_audio_def Let_def strip_Nil)
  next
    case False
    with bad show ?thesis
      using ne assms(1) by (auto simp: cleanup_audio_def Let_def strip_Nil)
  qed
qed

theorem cleanup_audio_rejects_witness:
  "dict_get [(''filename'', JStr ''../../etc/passwd.mp3'')] ''filename''
     = Some (JStr ''../../etc/passwd.mp3'')
   \<and> basename ''../../etc/passwd.mp3'' \<noteq> ''../../etc/passwd.mp3''
   \<and> fst (fst (cleanup_audio (Some (JObj [(''filename'', JStr ''../../etc/passwd.mp3'')]))
        {''passwd.mp3''})) = 400
   \<and> snd (cleanup_audio (Some (JObj [(''filename'', JStr ''../../etc/passwd.mp3'')]))
        {''passwd.mp3''}) = {''passwd.mp3''}
   \<and> dict_get [(''filename'', JStr ''reply.wav'')] ''filename'' = Some (JStr ''reply.wav'')
   \<and> \<not> endswith (strip ''reply.wav'') ''.mp3''
   \<and> fst (fst (cleanup_audio (Some (JObj [(''filename'', JStr ''reply.wav'')]))
        {''reply.wav''})) = 400
   \<and> snd (cleanup_audio (Some (JObj [(''filename'', JStr ''reply.wav'')])) {''reply.wav''})
       = {''reply.wav''}"
proof -
  have g1: "dict_get [(''filename'', JStr ''../../etc/passwd.mp3'')] ''filename''
      = Some (JStr ''../../etc/passwd.mp3'')"
    by (simp add: dict_get_def)
  have b1: "basename ''../../etc/passwd.mp3'' \<noteq> ''../../etc/passwd.mp3''"
    by (simp add: basename_def)
  have g2: "dict_get [(''filename'', JStr ''reply.wav'')] ''filename'' = Some (JStr ''reply.wav'')"
    by (simp add: dict_get_def)
  have b2: "\<not> endswith (strip ''reply.wav'') ''.mp3''"
    by (simp add: endswith_def strip_def isspace_def)
  from cleanup_audio_rejects [OF g1, of "{''passwd.mp3''}"] b1
       cleanup_audio_rejects [OF g2, of "{''reply.wav''}"] b2 g1 g2
  show ?thesis by blast
qed

section \<open>Progress cache\<close>

lemma last_100_step: "last_100 (last_100 xs @ [x]) = last_100 (xs @ [x])"
proof -
  have "length xs - (length xs - 100 + 99) + (length xs - 100) = length xs - 99"
    by arith
  then show ?thesis by (simp add: last_100_def)
qed

lemma last_100_length: "length (last_100 xs) \<le> 100"
  by (simp add: last_100_def)

lemma last_100_snoc: "last (last_100 (xs @ [x])) = x"
  by (simp add: last_100_def)

lemma cached_save:
  "cached (save_progress_entry c st) u =
     (if call_user_id c = u \<and> u \<noteq> [] then last_100 (cached st u @ [new_entry c])
      else cached st u)"
  by (cases "call_write c")
     (auto simp: save_progress_entry_def cached_def last_100_def Let_def)

lemma cached_save_all_none:
  "filter (\<lambda>c. call_user_id c = u) cs = [] \<Longrightarrow> cached (save_all cs st) u = cached st u"
  by (induction cs arbitrary: st) (auto simp: cached_save split: if_splits)

lemma save_all_snoc: "save_all (cs @ [c]) st = save_progress_entry c (save_all cs st)"
  by (induction cs arbitrary: st) simp_all

lemma cached_save_all:
  "u \<noteq> [] \<Longrightarrow> entries_for u cs \<noteq> [] \<Longrightarrow>
   cached (save_all cs st) u = last_100 (cached st u @ entries_for u cs)"
proof (induction cs rule: rev_induct)
  case Nil
  then show ?case by (simp add: entries_for_def)
next
  case (snoc c cs)
  show ?case
  proof (cases "call_user_id c = u")
    case False
    with snoc show ?thesis
      by (simp add: save_all_snoc cached_save entries_for_def)
  next
    case True
    show ?thesis
    proof (cases "entries_for u cs = []")
      case e: True
      then have "cached (save_all cs st) u = cached st u"
        by (simp add: entries_for_def cached_save_all_none)
      with True e snoc.prems(1) show ?thesis
        by (simp add: save_all_snoc cached_save entries_for_def)
    next
      case False
      with snoc True show ?thesis
        by (simp add: save_all_snoc cached_save entries_for_def last_100_step)
    qed
  qed
qed

lemma suffix_last_100: "suffix (last_100 xs) xs"
  unfolding last_100_def by (rule suffix_drop)

text \<open>
  Claim C9. After a call of \<open>save_progress_entry\<close> with a non-empty user id, the
  cache of that user is the last 100 entries of its earlier content followed by the new
  entry: at most 100 entries, in their order, ending with the new entry. Over any sequence
  of calls that appends for the user, the cache is the last 100 of all entries appended.
\<close>

theorem save_progress_entry_caps_cache:
  assumes "call_user_id c \<noteq> []"
  shows "PROGRESS_CACHE (save_progress_entry c st) (call_user_id c)
           = Some (last_100 (cached st (call_user_id c) @ [new_entry c]))
    \<and> length (cached (save_progress_entry c st) (call_user_id c)) \<le> 100
    \<and> last (cached (save_progress_entry c st) (call_user_id c)) = new_entry c
    \<and> suffix (cached (save_progress_entry c st) (call_user_id c))
          (cached st (call_user_id c) @ [new_entry c])
    \<and> (entries_for (call_user_id c) cs = [] \<or>
        cached (save_all cs st) (call_user_id c)
          = last_100 (cached st (call_user_id c) @ entries_for (call_user_id c) cs))"
proof -
  have c: "cached (save_progress_entry c st) (call_user_id c)
      = last_100 (cached st (call_user_id c) @ [new_entry c])"
    using assms by (simp add: cached_save)
  have p: "PROGRESS_CACHE (save_progress_entry c st) (call_user_id c)
      = Some (last_100 (cached st (call_user_id c) @ [new_entry c]))"
    using assms by (cases "call_write c")
      (simp_all add: save_progress_entry_def last_100_def Let_def cached_def)
  have l: "length (cached (save_progress_entry c st) (call_user_id c)) \<le> 100"
    by (simp only: c last_100_length)
  have e: "last (cached (save_progress_entry c st) (call_user_id c)) = new_entry c"
    by (simp only: c last_100_snoc)
  have s: "suffix (cached (save_progress_entry c st) (call_user_id c))
      (cached st (call_user_id c) @ [new_entry c])"
    by (simp only: c suffix_last_100)
  have a: "entries_for (call_user_id c) cs = [] \<or>
      cached (save_all cs st) (call_user_id c)
        = last_100 (cached st (call_user_id c) @ entries_for (call_user_id c) cs)"
    using assms cached_save_all [of "call_user_id c" cs st] by blast
  from p l e s a show ?thesis by blast
qed

theorem save_progress_entry_caps_cache_witness:
  "call_user_id sample_call \<noteq> []
   \<and> PROGRESS_CACHE (save_progress_entry sample_call sample_state) (call_user_id sample_call)
       = Some (replicate 99 (sample_entry ''old'') @ [new_entry sample_call])
   \<and> length (cached (save_progress_entry sample_call sample_state) (call_user_id sample_call))
       \<le> 100
   \<and> last (cached (save_progress_entry sample_call sample_state) (call_user_id sample_call))
       = new_entry sample_call"
proof -
  have u: "call_user_id sample_call = ''u@x.org''"
    by (simp add: sample_call_def)
  have ne: "call_user_id sample_call \<noteq> []"
    by (simp add: u)
  have old: "cached sample_state (call_user_id sample_call) = replicate 100 (sample_entry ''old'')"
    by (simp add: u cached_def sample_state_def)
  have l: "last_100 (replicate 100 (sample_entry ''old'') @ [new_entry sample_call])
      = replicate 99 (sample_entry ''old'') @ [new_entry sample_call]"
    by (simp add: last_100_def)
  from save_progress_entry_caps_cache [OF ne, of sample_state "[]"]
  have "PROGRESS_CACHE (save_progress_entry sample_call sample_state) (call_user_id sample_call)
       = Some (last_100 (cached sample_state (call_user_id sample_call) @ [new_entry sample_call]))"
    and "length (cached (save_progress_entry sample_call sample_state) (call_user_id sample_call))
       \<le> 100"
    and "last (cached (save_progress_entry sample_call sample_state) (call_user_id sample_call))
       = new_entry sample_call"
    by blast+
  with ne show ?thesis by (simp only: old l) simp
qed

end
